theory Spec2Isabelle
  imports Main
begin

section \<open>Order-preserving deduplication\<close>

text \<open>
  \<^verbatim>\<open>dedup_preserve_order(items)\<close> walks the items once, with the set \<^verbatim>\<open>seen\<close> of the
  items met so far and the output list \<^verbatim>\<open>out\<close>; an item that is not in \<^verbatim>\<open>seen\<close> is
  added to both.  The loop is the recursion \<open>dedup_loop\<close> over the items that are left,
  the two mutable variables are its accumulators.
\<close>

fun dedup_loop :: "'a list \<Rightarrow> 'a set \<Rightarrow> 'a list \<Rightarrow> 'a list" where
  "dedup_loop [] seen out = out"
| "dedup_loop (x # items) seen out =
     (if x \<notin> seen then dedup_loop items (insert x seen) (out @ [x])
      else dedup_loop items seen out)"

definition dedup_preserve_order :: "'a list \<Rightarrow> 'a list" where
  "dedup_preserve_order items = dedup_loop items {} []"

section \<open>Texts and characters\<close>

text \<open>
  A Python \<^verbatim>\<open>str\<close> is modelled by a \<open>string\<close>, a list of 8-bit characters, read as the
  code points U+0000 to U+00FF; \<open>length\<close> is then Python's \<^verbatim>\<open>len\<close>.  On these code points
  \<open>is_space\<close> is \<^verbatim>\<open>str.isspace\<close> and the class \<^verbatim>\<open>\s\<close> of module \<^verbatim>\<open>re\<close>, \<open>is_digit\<close> is the
  class \<^verbatim>\<open>\d\<close> (and \<^verbatim>\<open>[0-9]\<close>), \<open>is_word\<close> is the class \<^verbatim>\<open>\w\<close>, \<open>is_upper\<close>, \<open>is_lower\<close> and
  \<open>is_alpha\<close> are the classes \<^verbatim>\<open>[A-Z]\<close>, \<^verbatim>\<open>[a-z]\<close> and \<^verbatim>\<open>[A-Za-z]\<close>, and \<open>lower\<close> is
  \<^verbatim>\<open>str.lower\<close>; \<open>strip\<close> is \<^verbatim>\<open>str.strip\<close> without argument.
\<close>

definition code :: "char \<Rightarrow> int" where
  "code c = of_char c"

definition is_space :: "char \<Rightarrow> bool" where
  "is_space c = (let n = code c in (9 \<le> n \<and> n \<le> 13) \<or> (28 \<le> n \<and> n \<le> 32) \<or> n = 133 \<or> n = 160)"

definition is_digit :: "char \<Rightarrow> bool" where
  "is_digit c = (let n = code c in 48 \<le> n \<and> n \<le> 57)"

definition is_upper :: "char \<Rightarrow> bool" where
  "is_upper c = (let n = code c in 65 \<le> n \<and> n \<le> 90)"

definition is_lower :: "char \<Rightarrow> bool" where
  "is_lower c = (let n = code c in 97 \<le> n \<and> n \<le> 122)"

definition is_alpha :: "char \<Rightarrow> bool" where
  "is_alpha c = (is_upper c \<or> is_lower c)"

definition is_word :: "char \<Rightarrow> bool" where
  "is_word c = (let n = code c in
     is_alpha c \<or> is_digit c \<or> n = 95 \<or> n = 170 \<or> n = 178 \<or> n = 179 \<or> n = 181 \<or> n = 185
     \<or> n = 186 \<or> (188 \<le> n \<and> n \<le> 190) \<or> (192 \<le> n \<and> n \<noteq> 215 \<and> n \<noteq> 247))"

definition lower_char :: "char \<Rightarrow> char" where
  "lower_char c = (let n = code c in
     if (65 \<le> n \<and> n \<le> 90) \<or> (192 \<le> n \<and> n \<le> 222 \<and> n \<noteq> 215) then char_of (n + 32) else c)"

definition lower :: "string \<Rightarrow> string" where
  "lower s = map lower_char s"

definition strip :: "string \<Rightarrow> string" where
  "strip s = rev (dropWhile is_space (rev (dropWhile is_space s)))"

definition startswith :: "string \<Rightarrow> string \<Rightarrow> bool" where
  "startswith s p = (take (length p) s = p)"

text \<open>\<^verbatim>\<open>sub in s\<close>, the substring test.\<close>

fun contains :: "string \<Rightarrow> string \<Rightarrow> bool" where
  "contains [] sub = (sub = [])"
| "contains (c # cs) sub = (startswith (c # cs) sub \<or> contains cs sub)"

text \<open>\<^verbatim>\<open>sep.join(parts)\<close>.\<close>

fun join :: "string \<Rightarrow> string list \<Rightarrow> string" where
  "join sep [] = []"
| "join sep [x] = x"
| "join sep (x # y # ys) = x @ sep @ join sep (y # ys)"

section \<open>Regular expressions with Python's backtracking semantics\<close>

text \<open>
  The patterns of the module use literals (some under \<^verbatim>\<open>re.IGNORECASE\<close>), character
  classes, greedy repetition of a single character class, greedy optional groups,
  alternation, capture groups and the word boundary \<^verbatim>\<open>\b\<close>.  \<open>rx\<close> is that fragment.

  \<open>rmatch r s k (i, caps)\<close> is the backtracking matcher of \<^verbatim>\<open>re\<close>: it matches \<open>r\<close> in
  the text \<open>s\<close> from position \<open>i\<close> and hands the position it reaches to the
  continuation \<open>k\<close>, the rest of the pattern; where the continuation fails it tries
  the next choice, in Python's order: a greedy repetition gives characters back one at a
  time, an optional item is tried before it is skipped, an alternative is tried left to
  right.  \<open>caps\<close> maps a group number to the positions of what the group captured.
\<close>

datatype rx =
    Cls "char \<Rightarrow> bool"
  | Eps
  | Seq rx rx
  | Alt rx rx
  | Opt rx
  | Rep nat "nat option" "char \<Rightarrow> bool"
  | Grp nat rx
  | WordB

type_synonym caps = "nat \<Rightarrow> (nat \<times> nat) option"
type_synonym mstate = "nat \<times> caps"

text \<open>The number of characters from position \<open>i\<close> on that are in the class \<open>p\<close>.\<close>

definition run :: "(char \<Rightarrow> bool) \<Rightarrow> string \<Rightarrow> nat \<Rightarrow> nat" where
  "run p s i = length (takeWhile p (drop i s))"

text \<open>
  A greedy repetition that took \<open>n\<close> characters tries the continuation, then gives one
  character back, down to \<open>lo\<close> characters.
\<close>

fun give_back :: "(mstate \<Rightarrow> mstate option) \<Rightarrow> caps \<Rightarrow> nat \<Rightarrow> nat \<Rightarrow> nat \<Rightarrow> mstate option" where
  "give_back k c i lo 0 = (if lo = 0 then k (i, c) else None)"
| "give_back k c i lo (Suc n) =
     (if Suc n < lo then None
      else (case k (i + Suc n, c) of
              Some r \<Rightarrow> Some r
            | None \<Rightarrow> give_back k c i lo n))"

text \<open>\<^verbatim>\<open>\b\<close>: exactly one of the characters before and after the position is a word character.\<close>

definition word_at :: "string \<Rightarrow> nat \<Rightarrow> bool" where
  "word_at s i = (i < length s \<and> is_word (s ! i))"

definition boundary :: "string \<Rightarrow> nat \<Rightarrow> bool" where
  "boundary s i = ((0 < i \<and> word_at s (i - 1)) \<noteq> word_at s i)"

fun rmatch :: "rx \<Rightarrow> string \<Rightarrow> (mstate \<Rightarrow> mstate option) \<Rightarrow> mstate \<Rightarrow> mstate option" where
  "rmatch (Cls p) s k (i, c) = (if i < length s \<and> p (s ! i) then k (Suc i, c) else None)"
| "rmatch Eps s k (i, c) = k (i, c)"
| "rmatch (Seq a b) s k (i, c) = rmatch a s (\<lambda>st. rmatch b s k st) (i, c)"
| "rmatch (Alt a b) s k (i, c) =
     (case rmatch a s k (i, c) of Some r \<Rightarrow> Some r | None \<Rightarrow> rmatch b s k (i, c))"
| "rmatch (Opt a) s k (i, c) =
     (case rmatch a s k (i, c) of Some r \<Rightarrow> Some r | None \<Rightarrow> k (i, c))"
| "rmatch (Rep lo hi p) s k (i, c) =
     give_back k c i lo (case hi of None \<Rightarrow> run p s i | Some h \<Rightarrow> min h (run p s i))"
| "rmatch (Grp g a) s k (i, c) = rmatch a s (\<lambda>(j, c'). k (j, c'(g \<mapsto> (i, j)))) (i, c)"
| "rmatch WordB s k (i, c) = (if boundary s i then k (i, c) else None)"

text \<open>A literal, and a literal under \<^verbatim>\<open>re.IGNORECASE\<close>.\<close>

definition lit :: "string \<Rightarrow> rx" where
  "lit w = foldr (\<lambda>ch r. Seq (Cls (\<lambda>x. x = ch)) r) w Eps"

definition lit_ci :: "string \<Rightarrow> rx" where
  "lit_ci w = foldr (\<lambda>ch r. Seq (Cls (\<lambda>x. lower_char x = lower_char ch)) r) w Eps"

definition seqs :: "rx list \<Rightarrow> rx" where
  "seqs rs = foldr Seq rs Eps"

text \<open>
  A match is the triple of its start, its end and its captures.  \<open>match_at\<close> is
  the match that starts at position \<open>i\<close>; \<open>search\<close> is the leftmost match at or after
  \<open>pos\<close>, as \<^verbatim>\<open>pattern.search\<close> returns it.
\<close>

type_synonym rmatch = "nat \<times> nat \<times> caps"

definition match_at :: "rx \<Rightarrow> string \<Rightarrow> nat \<Rightarrow> rmatch option" where
  "match_at r s i = map_option (\<lambda>(j, c). (i, j, c)) (rmatch r s Some (i, Map.empty))"

fun first_match :: "rx \<Rightarrow> string \<Rightarrow> nat list \<Rightarrow> rmatch option" where
  "first_match r s [] = None"
| "first_match r s (i # is) =
     (case match_at r s i of Some m \<Rightarrow> Some m | None \<Rightarrow> first_match r s is)"

definition search :: "rx \<Rightarrow> string \<Rightarrow> nat \<Rightarrow> rmatch option" where
  "search r s pos = first_match r s [pos ..< Suc (length s)]"

text \<open>The text between two positions, and what a group captured (\<^verbatim>\<open>m.group(g)\<close>).\<close>

definition slice :: "string \<Rightarrow> nat \<Rightarrow> nat \<Rightarrow> string" where
  "slice s i j = take (j - i) (drop i s)"

definition group :: "string \<Rightarrow> rmatch \<Rightarrow> nat \<Rightarrow> string option" where
  "group s m g = (case m of (i, j, c) \<Rightarrow>
     (if g = 0 then Some (slice s i j) else map_option (\<lambda>(a, b). slice s a b) (c g)))"

text \<open>
  \<^verbatim>\<open>pattern.finditer(s)\<close>: the matches from left to right, each search starting where the
  last match ended.  The scanner tries a match at \<open>pos\<close> and moves one character on
  where there is none.  After a match that consumed nothing it moves one character on as
  well; no pattern of this module matches the empty text, so that case does not arise.
\<close>

function finditer_from :: "rx \<Rightarrow> string \<Rightarrow> nat \<Rightarrow> rmatch list" where
  "finditer_from r s pos =
     (if length s < pos then []
      else (case match_at r s pos of
              None \<Rightarrow> finditer_from r s (Suc pos)
            | Some (i, j, c) \<Rightarrow> (i, j, c) # finditer_from r s (if pos < j then j else Suc pos)))"
  by pat_completeness auto
termination
  by (relation "measure (\<lambda>(r, s, pos). Suc (length s) - pos)") auto

definition finditer :: "rx \<Rightarrow> string \<Rightarrow> rmatch list" where
  "finditer r s = finditer_from r s 0"

text \<open>\<^verbatim>\<open>pattern.findall(s)\<close> for a pattern without groups: the matched texts.\<close>

definition findall :: "rx \<Rightarrow> string \<Rightarrow> string list" where
  "findall r s = map (\<lambda>(i, j, c). slice s i j) (finditer r s)"

text \<open>\<^verbatim>\<open>pattern.sub(repl, s)\<close> for a replacement text without group references.\<close>

fun replace_matches :: "string \<Rightarrow> string \<Rightarrow> nat \<Rightarrow> rmatch list \<Rightarrow> string" where
  "replace_matches repl s pos [] = drop pos s"
| "replace_matches repl s pos ((i, j, c) # ms) =
     slice s pos i @ repl @ replace_matches repl s j ms"

definition re_sub :: "rx \<Rightarrow> string \<Rightarrow> string \<Rightarrow> string" where
  "re_sub r repl s = replace_matches repl s 0 (finditer r s)"

text \<open>
  \<open>occurs r s\<close>: the pattern matches at some position of the text.  \<open>sets g r\<close>: every
  match of the pattern goes through the group \<open>g\<close>, so that \<^verbatim>\<open>m.group(g)\<close> is not \<^verbatim>\<open>None\<close>.
\<close>

definition occurs :: "rx \<Rightarrow> string \<Rightarrow> bool" where
  "occurs r s = list_ex (\<lambda>i. match_at r s i \<noteq> None) [0 ..< Suc (length s)]"

fun sets :: "nat \<Rightarrow> rx \<Rightarrow> bool" where
  "sets g (Seq a b) = (sets g a \<or> sets g b)"
| "sets g (Alt a b) = (sets g a \<and> sets g b)"
| "sets g (Grp h a) = (g = h \<or> sets g a)"
| "sets g r = False"

text \<open>
  \<open>sub_at s i w\<close>: the text \<open>w\<close> stands in \<open>s\<close> at position \<open>i\<close>; \<open>ci_at\<close> is the same up to
  the case of the letters.
\<close>

definition sub_at :: "string \<Rightarrow> nat \<Rightarrow> string \<Rightarrow> bool" where
  "sub_at s i w = (i + length w \<le> length s \<and> (\<forall>j < length w. s ! (i + j) = w ! j))"

definition ci_at :: "string \<Rightarrow> nat \<Rightarrow> string \<Rightarrow> bool" where
  "ci_at s i w = sub_at (lower s) i (lower w)"

section \<open>The patterns and constants of the module\<close>

definition chr :: "char \<Rightarrow> rx" where
  "chr ch = Cls (\<lambda>x. x = ch)"

definition LF :: char where "LF = CHR 0x0A"
definition CR :: char where "CR = CHR 0x0D"

text \<open>\<^verbatim>\<open>CO_TAIL_RE = re.compile(r"\b(?:SDN BHD|BHD|BERHAD)\b", re.IGNORECASE)\<close>\<close>

definition CO_TAIL_RE :: rx where
  "CO_TAIL_RE = seqs [WordB, Alt (lit_ci ''SDN BHD'') (Alt (lit_ci ''BHD'') (lit_ci ''BERHAD'')), WordB]"

text \<open>
  \<^verbatim>\<open>CO_NO_RE = re.compile(r"\(Co\. ?No\. ?: ?([A-Z0-9\-]+)\)", re.IGNORECASE)\<close>;
  under \<^verbatim>\<open>IGNORECASE\<close> the class \<^verbatim>\<open>[A-Z0-9\-]\<close> has the lower-case letters too.
\<close>

definition co_no_class :: "char \<Rightarrow> bool" where
  "co_no_class x = (is_upper x \<or> is_lower x \<or> is_digit x \<or> x = CHR ''-'')"

definition CO_NO_RE :: rx where
  "CO_NO_RE = seqs [lit_ci ''(Co.'', Opt (chr CHR '' ''), lit_ci ''No.'', Opt (chr CHR '' ''),
                    chr CHR '':'', Opt (chr CHR '' ''), Grp 1 (Rep 1 None co_no_class), chr CHR '')'']"

text \<open>The literal of the test \<^verbatim>\<open>"(Co. No." in txt\<close>.\<close>

definition CO_NO_LITERAL :: string where
  "CO_NO_LITERAL = ''(Co. No.''"

definition REJECT_BOLD_PREFIXES :: "string list" where
  "REJECT_BOLD_PREFIXES =
     [''directory of'', ''business activities'', ''email'', ''web site'',
      ''tel.no'', ''fax.no'', ''authorised capital'', ''paid up capital'',
      ''incorporation date'', ''no of employees'', ''management'']"

text \<open>\<^verbatim>\<open>s.lower().startswith(REJECT_BOLD_PREFIXES)\<close>: some prefix of the tuple starts the text.\<close>

definition rejected :: "string \<Rightarrow> bool" where
  "rejected s = list_ex (startswith (lower s)) REJECT_BOLD_PREFIXES"

text \<open>\<^verbatim>\<open>TEL_LABEL_RE = re.compile(r"Tel\.?\s*No\.?\s*:\s*([^\n\r]+)", re.IGNORECASE)\<close>\<close>

definition not_newline :: "char \<Rightarrow> bool" where
  "not_newline x = (x \<noteq> LF \<and> x \<noteq> CR)"

definition TEL_LABEL_RE :: rx where
  "TEL_LABEL_RE = seqs [lit_ci ''Tel'', Opt (chr CHR ''.''), Rep 0 None is_space,
                        lit_ci ''No'', Opt (chr CHR ''.''), Rep 0 None is_space,
                        chr CHR '':'', Rep 0 None is_space, Grp 1 (Rep 1 None not_newline)]"

text \<open>\<^verbatim>\<open>PHONE_RE = re.compile(r"\b(?:\+?6?0)?\d{2,3}-?\d{5,8}\b")\<close>\<close>

definition PHONE_RE :: rx where
  "PHONE_RE = seqs [WordB, Opt (seqs [Opt (chr CHR ''+''), Opt (chr CHR ''6''), chr CHR ''0'']),
                    Rep 2 (Some 3) is_digit, Opt (chr CHR ''-''), Rep 5 (Some 8) is_digit, WordB]"

text \<open>
  \<^verbatim>\<open>EMAIL_BREAK_RE\<close>, compiled with \<^verbatim>\<open>re.VERBOSE\<close> (the blanks and comments of the pattern
  are no part of it):
  \<^verbatim>\<open>([A-Za-z0-9._%+-]+)(?:\s+|\n)?@(?:\s+|\n)?([A-Za-z0-9.-]+)(?:\s+|\n)?\.(?:\s+|\n)?([A-Za-z]{2,})(?:\.(?:\s+|\n)?([A-Za-z]{2,}))?\<close>
\<close>

definition local_class :: "char \<Rightarrow> bool" where
  "local_class x = (is_alpha x \<or> is_digit x \<or> x \<in> set ''._%+-'')"

definition domain_class :: "char \<Rightarrow> bool" where
  "domain_class x = (is_alpha x \<or> is_digit x \<or> x \<in> set ''.-'')"

definition broken :: rx where
  "broken = Opt (Alt (Rep 1 None is_space) (chr LF))"

definition EMAIL_BREAK_RE :: rx where
  "EMAIL_BREAK_RE = seqs [Grp 1 (Rep 1 None local_class), broken, chr CHR ''@'', broken,
                          Grp 2 (Rep 1 None domain_class), broken, chr CHR ''.'', broken,
                          Grp 3 (Rep 2 None is_alpha),
                          Opt (seqs [chr CHR ''.'', broken, Grp 4 (Rep 2 None is_alpha)])]"

section \<open>The contact extractor\<close>

datatype error = IndexError | TypeError

text \<open>How an f-string prints the value of a group: the text, or \<^verbatim>\<open>None\<close>.\<close>

fun fmt :: "string option \<Rightarrow> string" where
  "fmt None = ''None''"
| "fmt (Some t) = t"

text \<open>The body of the loop of \<^verbatim>\<open>normalize_emails\<close>: the address built from one match.\<close>

definition email_of :: "string \<Rightarrow> rmatch \<Rightarrow> string" where
  "email_of s m =
     (let local = group s m 1; dom = group s m 2; tld1 = group s m 3; tld2 = group s m 4;
          email = fmt local @ ''@'' @ fmt dom @ ''.'' @ fmt tld1;
          email = (case tld2 of
                     None \<Rightarrow> email
                   | Some t \<Rightarrow> if t \<noteq> [] then email @ ''.'' @ t else email)
      in lower email)"

definition normalize_emails :: "string \<Rightarrow> string list" where
  "normalize_emails s = dedup_preserve_order (map (email_of s) (finditer EMAIL_BREAK_RE s))"

text \<open>
  The loops of \<^verbatim>\<open>extract_contacts_from_block\<close>: for every match of the telephone label
  the phone-shaped texts of its group 1 are appended to \<^verbatim>\<open>phones\<close>.
  \<^verbatim>\<open>PHONE_RE.findall\<close> raises \<^verbatim>\<open>TypeError\<close> on \<^verbatim>\<open>None\<close>.
\<close>

fun phones_loop :: "string \<Rightarrow> rmatch list \<Rightarrow> string list \<Rightarrow> error + string list" where
  "phones_loop s [] phones = Inr phones"
| "phones_loop s (m # ms) phones =
     (case group s m 1 of
        None \<Rightarrow> Inl TypeError
      | Some tail \<Rightarrow> phones_loop s ms (phones @ findall PHONE_RE tail))"

definition extract_contacts_from_block :: "string \<Rightarrow> error + (string list \<times> string list)" where
  "extract_contacts_from_block block_text =
     (case phones_loop block_text (finditer TEL_LABEL_RE block_text) [] of
        Inl e \<Rightarrow> Inl e
      | Inr phones \<Rightarrow> Inr (dedup_preserve_order phones, normalize_emails block_text))"

section \<open>The layout flattener\<close>

text \<open>
  The page layout is the dictionary that \<^verbatim>\<open>page.get_text("dict")\<close> returns: blocks, each
  with a type and lines, each line with spans, each span with a text, a font name and
  a weight.  The code reads every key with \<^verbatim>\<open>get\<close>, so a key may be missing: \<open>None\<close>.
\<close>

datatype raw_span = RawSpan (rs_text: "string option") (rs_font: "string option") (rs_weight: "int option")
datatype raw_line = RawLine (rl_spans: "raw_span list option")
datatype raw_block = RawBlock (rb_type: "int option") (rb_lines: "raw_line list option")
datatype raw_page = RawPage (rp_blocks: "raw_block list option")

record span =
  span_text :: string
  is_bold :: bool
  line_no :: int

text \<open>\<^verbatim>\<open>d.get(key, default)\<close>\<close>

fun get_or :: "'a option \<Rightarrow> 'a \<Rightarrow> 'a" where
  "get_or None d = d"
| "get_or (Some v) d = v"

definition is_bold_span :: "raw_span \<Rightarrow> bool" where
  "is_bold_span s =
     (let font = lower (get_or (rs_font s) []); weight = get_or (rs_weight s) 0
      in contains font ''bold'' \<or> (weight \<noteq> 0 \<and> weight \<ge> 700))"

text \<open>\<^verbatim>\<open>re.sub(r"\s+", " ", s.get("text", "")).strip()\<close>\<close>

definition collapse :: "string \<Rightarrow> string" where
  "collapse t = strip (re_sub (Rep 1 None is_space) '' '' t)"

text \<open>
  The three nested loops of \<^verbatim>\<open>get_flat_spans_with_lines\<close>, innermost first.  The
  variables \<^verbatim>\<open>spans\<close>, \<^verbatim>\<open>lines\<close>, \<^verbatim>\<open>line_no\<close> (here \<open>n\<close>) and \<^verbatim>\<open>acc_line\<close> are passed along.
\<close>

fun span_loop :: "int \<Rightarrow> raw_span list \<Rightarrow> span list \<Rightarrow> string list \<Rightarrow> span list \<times> string list" where
  "span_loop n [] spans acc_line = (spans, acc_line)"
| "span_loop n (s # ss) spans acc_line =
     (let t = collapse (get_or (rs_text s) [])
      in if t = [] then span_loop n ss spans acc_line
         else span_loop n ss
                (spans @ [\<lparr>span_text = t, is_bold = is_bold_span s, line_no = n\<rparr>])
                (acc_line @ [t]))"

fun line_loop :: "raw_line list \<Rightarrow> span list \<times> string list \<times> int \<Rightarrow> span list \<times> string list \<times> int" where
  "line_loop [] st = st"
| "line_loop (l # ls) (spans, lines, n) =
     (let n = n + 1;
          (spans, acc_line) = span_loop n (get_or (rl_spans l) []) spans []
      in line_loop ls (spans, lines @ [strip (join '' '' acc_line)], n))"

fun block_loop :: "raw_block list \<Rightarrow> span list \<times> string list \<times> int \<Rightarrow> span list \<times> string list \<times> int" where
  "block_loop [] st = st"
| "block_loop (b # bs) st =
     (if rb_type b \<noteq> Some 0 then block_loop bs st
      else block_loop bs (line_loop (get_or (rb_lines b) []) st))"

definition get_flat_spans_with_lines :: "raw_page \<Rightarrow> span list \<times> string list" where
  "get_flat_spans_with_lines page =
     (case block_loop (get_or (rp_blocks page) []) ([], [], - 1) of
        (spans, lines, n) \<Rightarrow> (spans, lines))"

text \<open>
  What the specification says of the flattener, to compare the loops with: the visual
  text lines of a page are the lines of its blocks of type 0, in document order; the
  fragment texts of a line are the whitespace-collapsed texts of its spans that are not
  empty; the text of a line joins them with single spaces.
\<close>

definition visual_lines :: "raw_block list \<Rightarrow> raw_line list" where
  "visual_lines bs = concat (map (\<lambda>b. get_or (rb_lines b) []) (filter (\<lambda>b. rb_type b = Some 0) bs))"

definition fragment_text :: "raw_span \<Rightarrow> string" where
  "fragment_text s = collapse (get_or (rs_text s) [])"

definition fragment_texts :: "raw_line \<Rightarrow> string list" where
  "fragment_texts l = filter (\<lambda>t. t \<noteq> []) (map fragment_text (get_or (rl_spans l) []))"

definition line_text :: "raw_line \<Rightarrow> string" where
  "line_text l = strip (join '' '' (fragment_texts l))"

text \<open>
  The invariant of the loops, after the visual lines \<open>vs\<close>: \<^verbatim>\<open>line_no\<close> is the index of the
  last line, there is one line text per visual line, the line numbers of the spans do
  not decrease, and the spans of line \<open>i\<close> are the fragments of the visual line \<open>i\<close>.
\<close>

definition flat_inv :: "raw_line list \<Rightarrow> span list \<times> string list \<times> int \<Rightarrow> bool" where
  "flat_inv vs st = (case st of (spans, lines, n) \<Rightarrow>
       n = int (length vs) - 1
     \<and> lines = map line_text vs
     \<and> sorted (map line_no spans)
     \<and> list_all (\<lambda>sp. 0 \<le> line_no sp \<and> line_no sp \<le> n) spans
     \<and> list_all (\<lambda>i. map span_text (filter (\<lambda>sp. line_no sp = int i) spans)
                        = fragment_texts (vs ! i)) [0 ..< length vs])"

section \<open>The header detector\<close>

text \<open>
  A header is the pair of a company name and the index of its terminating span.  The
  closure \<^verbatim>\<open>flush_if_company\<close> changes the variables \<^verbatim>\<open>results\<close>, \<^verbatim>\<open>buf\<close> and \<^verbatim>\<open>last_idx\<close>
  of \<^verbatim>\<open>extract_headers_from_bold\<close>; they are the state \<open>hstate\<close>.
\<close>

type_synonym header = "string \<times> nat option"

record hstate =
  results :: "header list"
  buf :: "string list"
  last_idx :: "nat option"

text \<open>\<^verbatim>\<open>CO_TAIL_RE.search(t)\<close> as a truth value.\<close>

definition has_tail :: "string \<Rightarrow> bool" where
  "has_tail t = (search CO_TAIL_RE t 0 \<noteq> None)"

definition clean_name :: "string \<Rightarrow> string" where
  "clean_name joined =
     (let clean = strip (re_sub CO_NO_RE [] joined)
      in re_sub (Rep 2 None is_space) '' '' clean)"

definition flush_if_company :: "hstate \<Rightarrow> hstate" where
  "flush_if_company st =
     (if buf st = [] then st
      else let joined = strip (join '' '' (buf st))
           in if rejected joined then st\<lparr>buf := [], last_idx := None\<rparr>
              else let st = (if has_tail joined \<or> contains joined CO_NO_LITERAL
                             then let clean = clean_name joined
                                  in if clean \<noteq> [] \<and> length clean \<le> 120
                                     then st\<lparr>results := results st @ [(clean, last_idx st)]\<rparr>
                                     else st
                             else st)
                   in st\<lparr>buf := [], last_idx := None\<rparr>)"

text \<open>The body of the loop over \<^verbatim>\<open>enumerate(spans)\<close>.\<close>

definition step :: "nat \<Rightarrow> span \<Rightarrow> hstate \<Rightarrow> hstate" where
  "step i sp st =
     (let txt = span_text sp
      in if is_bold sp
         then if rejected txt then flush_if_company st
              else let st = st\<lparr>buf := buf st @ [txt], last_idx := Some i\<rparr>
                   in if has_tail (join '' '' (buf st)) \<or> contains txt CO_NO_LITERAL
                      then flush_if_company st else st
         else flush_if_company st)"

fun scan :: "nat \<Rightarrow> span list \<Rightarrow> hstate \<Rightarrow> hstate" where
  "scan i [] st = st"
| "scan i (sp # sps) st = scan (Suc i) sps (step i sp st)"

text \<open>The last loop: the first header of every name.\<close>

fun unique_loop :: "header list \<Rightarrow> string set \<Rightarrow> header list \<Rightarrow> header list" where
  "unique_loop [] seen out = out"
| "unique_loop ((name, idx) # rs) seen out =
     (if name \<notin> seen then unique_loop rs (insert name seen) (out @ [(name, idx)])
      else unique_loop rs seen out)"

text \<open>
  The state after the loop over the spans, and the header candidates: the results after
  the last call of \<^verbatim>\<open>flush_if_company\<close>.
\<close>

definition scanned :: "span list \<Rightarrow> hstate" where
  "scanned spans = scan 0 spans \<lparr>results = [], buf = [], last_idx = None\<rparr>"

definition candidates :: "span list \<Rightarrow> header list" where
  "candidates spans = results (flush_if_company (scanned spans))"

definition extract_headers_from_bold :: "span list \<Rightarrow> header list" where
  "extract_headers_from_bold spans = unique_loop (candidates spans) {} []"

text \<open>
  The invariant of the scan, for a property \<open>P\<close> of span indices: every recorded header
  has a name that is not empty and of at most 120 characters, and a terminating span
  index with \<open>P\<close>; and while the buffer is not empty, \<^verbatim>\<open>last_idx\<close> is an index with \<open>P\<close>.
\<close>

definition good_header :: "(nat \<Rightarrow> bool) \<Rightarrow> header \<Rightarrow> bool" where
  "good_header P h = (fst h \<noteq> [] \<and> length (fst h) \<le> 120 \<and> (case snd h of None \<Rightarrow> False | Some e \<Rightarrow> P e))"

definition hinv :: "(nat \<Rightarrow> bool) \<Rightarrow> hstate \<Rightarrow> bool" where
  "hinv P st = (list_all (good_header P) (results st)
                \<and> (buf st = [] \<or> (case last_idx st of None \<Rightarrow> False | Some e \<Rightarrow> P e)))"

text \<open>A span that the scan adds to the buffer: bold, and not starting with a rejection prefix.\<close>

definition accepted :: "span \<Rightarrow> bool" where
  "accepted sp = (is_bold sp \<and> \<not> rejected (span_text sp))"

text \<open>
  What \<^verbatim>\<open>CO_TAIL_RE\<close> says of a position: one of the three suffixes stands there, up to
  case, between two word boundaries.
\<close>

definition tail_at :: "string \<Rightarrow> nat \<Rightarrow> bool" where
  "tail_at s i = (boundary s i \<and>
     list_ex (\<lambda>w. ci_at s i w \<and> boundary s (i + length w)) [''SDN BHD'', ''BHD'', ''BERHAD''])"

text \<open>
  \<open>triggers b\<close> is the test after a span was added to the buffer \<open>b\<close>, the last text of
  \<open>b\<close> being the text of that span.  \<open>emitted b idx\<close> is what a flush of the buffer \<open>b\<close>
  appends to the results.  \<open>open_inv\<close> is what holds of the state between two spans: an
  empty buffer has no \<^verbatim>\<open>last_idx\<close>, and the joined text of an open buffer has no company
  suffix.
\<close>

definition triggers :: "string list \<Rightarrow> bool" where
  "triggers b = (has_tail (join '' '' b) \<or> contains (last b) CO_NO_LITERAL)"

definition emitted :: "string list \<Rightarrow> nat option \<Rightarrow> header list" where
  "emitted b idx =
     (let joined = strip (join '' '' b); clean = clean_name joined
      in if b \<noteq> [] \<and> \<not> rejected joined \<and> (has_tail joined \<or> contains joined CO_NO_LITERAL)
            \<and> clean \<noteq> [] \<and> length clean \<le> 120
         then [(clean, idx)] else [])"

definition open_inv :: "hstate \<Rightarrow> bool" where
  "open_inv st = (if buf st = [] then last_idx st = None else \<not> has_tail (join '' '' (buf st)))"

text \<open>
  The order of the headers: \<open>before h h'\<close> says that the terminating span of \<open>h\<close> comes
  before that of \<open>h'\<close>.  \<open>idx_inv i\<close> holds of the state before the span \<open>i\<close>: the recorded
  headers are in that order and end before \<open>i\<close>, and before \<^verbatim>\<open>last_idx\<close> while the buffer is
  open.
\<close>


definition ends_before :: "nat \<Rightarrow> header \<Rightarrow> bool" where
  "ends_before n h = (case snd h of None \<Rightarrow> False | Some e \<Rightarrow> e < n)"

definition before :: "header \<Rightarrow> header \<Rightarrow> bool" where
  "before h h' = (case snd h' of None \<Rightarrow> False | Some e' \<Rightarrow> ends_before e' h)"

definition idx_inv :: "nat \<Rightarrow> hstate \<Rightarrow> bool" where
  "idx_inv i st = (sorted_wrt before (results st)
     \<and> list_all (ends_before i) (results st)
     \<and> (buf st = [] \<or> (case last_idx st of None \<Rightarrow> False
                           | Some l \<Rightarrow> l < i \<and> list_all (ends_before l) (results st))))"

section \<open>The block slicer\<close>

text \<open>\<^verbatim>\<open>xs[a:b]\<close> for integers: a negative bound counts from the end, both are clamped.\<close>

definition py_bound :: "nat \<Rightarrow> int \<Rightarrow> nat" where
  "py_bound n a = (if a < 0 then nat (max 0 (int n + a)) else min n (nat a))"

definition py_slice :: "'a list \<Rightarrow> int \<Rightarrow> int \<Rightarrow> 'a list" where
  "py_slice xs a b =
     (let lo = py_bound (length xs) a; hi = py_bound (length xs) b
      in take (hi - lo) (drop lo xs))"

text \<open>\<^verbatim>\<open>spans[idx]["line_no"]\<close>: an index past the end raises, and so does the index \<^verbatim>\<open>None\<close>.\<close>

fun line_of :: "span list \<Rightarrow> nat option \<Rightarrow> error + int" where
  "line_of spans None = Inl TypeError"
| "line_of spans (Some idx) =
     (if idx < length spans then Inr (line_no (spans ! idx)) else Inl IndexError)"

text \<open>
  The line range \<^verbatim>\<open>(start_line, stop_line)\<close> that one pass of the loop computes for the
  header with the terminating span \<open>end_idx\<close>; \<open>rest\<close> are the headers after it, so that
  \<^verbatim>\<open>headers[i + 1]\<close> is the first of them and \<^verbatim>\<open>i + 1 < len(headers)\<close> says there is one.
\<close>

definition block_range :: "span list \<Rightarrow> string list \<Rightarrow> nat option \<Rightarrow> header list \<Rightarrow> error + (int \<times> int)" where
  "block_range spans lines end_idx rest =
     (case (if end_idx \<noteq> None then map_sum id (\<lambda>n. n + 1) (line_of spans end_idx) else Inr 0) of
        Inl e \<Rightarrow> Inl e
      | Inr start_line \<Rightarrow>
          (case (case rest of
                   [] \<Rightarrow> Inr (int (length lines) - 1)
                 | (next_name, next_idx) # _ \<Rightarrow> map_sum id (\<lambda>n. n - 1) (line_of spans next_idx)) of
             Inl e \<Rightarrow> Inl e
           | Inr stop_line \<Rightarrow>
               Inr (start_line, if stop_line < start_line then start_line else stop_line)))"

definition block_text :: "string list \<Rightarrow> int \<Rightarrow> int \<Rightarrow> string" where
  "block_text lines start_line stop_line =
     join [LF] (filter (\<lambda>ln. ln \<noteq> []) (py_slice lines start_line (stop_line + 1)))"

fun slice_loop :: "span list \<Rightarrow> string list \<Rightarrow> header list \<Rightarrow> (string \<times> string) list
                     \<Rightarrow> error + (string \<times> string) list" where
  "slice_loop spans lines [] out = Inr out"
| "slice_loop spans lines ((name, end_idx) # rest) out =
     (case block_range spans lines end_idx rest of
        Inl e \<Rightarrow> Inl e
      | Inr (start_line, stop_line) \<Rightarrow>
          slice_loop spans lines rest (out @ [(name, block_text lines start_line stop_line)]))"

definition slice_company_blocks :: "header list \<Rightarrow> span list \<Rightarrow> string list
                                      \<Rightarrow> error + (string \<times> string) list" where
  "slice_company_blocks headers spans lines = slice_loop spans lines headers []"

text \<open>The line ranges that the loop computes, one for every header, as long as no lookup fails.\<close>

fun line_ranges :: "span list \<Rightarrow> string list \<Rightarrow> header list \<Rightarrow> error + (int \<times> int) list" where
  "line_ranges spans lines [] = Inr []"
| "line_ranges spans lines ((name, end_idx) # rest) =
     (case block_range spans lines end_idx rest of
        Inl e \<Rightarrow> Inl e
      | Inr r \<Rightarrow> map_sum id (\<lambda>rs. r # rs) (line_ranges spans lines rest))"

text \<open>
  A header is valid for a span sequence when its terminating span index is not
  \<^verbatim>\<open>None\<close> and is an index of the sequence; \<open>term_line\<close> is then the line of that span.
\<close>

definition valid_header :: "span list \<Rightarrow> header \<Rightarrow> bool" where
  "valid_header spans h = (case snd h of None \<Rightarrow> False | Some e \<Rightarrow> e < length spans)"

definition term_line :: "span list \<Rightarrow> header \<Rightarrow> int" where
  "term_line spans h = (case snd h of None \<Rightarrow> - 1 | Some e \<Rightarrow> line_no (spans ! e))"

section \<open>Example pages\<close>

text \<open>A page whose first line holds two company names in bold, and one line of body text.\<close>

definition two_on_a_line :: raw_page where
  "two_on_a_line = RawPage (Some [RawBlock (Some 0) (Some
     [RawLine (Some [RawSpan (Some ''A SDN BHD'') (Some ''Helvetica-Bold'') None,
                     RawSpan (Some ''B SDN BHD'') (Some ''Helvetica-Bold'') None]),
      RawLine (Some [RawSpan (Some ''body'') (Some ''Helvetica'') None])])])"

text \<open>A page with two company names three lines apart, each followed by two lines of text.\<close>

definition two_companies :: raw_page where
  "two_companies = RawPage (Some [RawBlock (Some 0) (Some
     [RawLine (Some [RawSpan (Some ''A SDN BHD'') (Some ''Helvetica-Bold'') None]),
      RawLine (Some [RawSpan (Some ''a1'') (Some ''Helvetica'') None]),
      RawLine (Some [RawSpan (Some ''a2'') (Some ''Helvetica'') None]),
      RawLine (Some [RawSpan (Some ''B SDN BHD'') (Some ''Helvetica-Bold'') None]),
      RawLine (Some [RawSpan (Some ''b1'') (Some ''Helvetica'') None]),
      RawLine (Some [RawSpan (Some ''b2'') (Some ''Helvetica'') None])])])"

definition two_on_a_line_spans :: "span list" where
  "two_on_a_line_spans =
     [\<lparr>span_text = ''A SDN BHD'', is_bold = True, line_no = 0\<rparr>,
      \<lparr>span_text = ''B SDN BHD'', is_bold = True, line_no = 0\<rparr>,
      \<lparr>span_text = ''body'', is_bold = False, line_no = 1\<rparr>]"

definition two_on_a_line_lines :: "string list" where
  "two_on_a_line_lines = [''A SDN BHD B SDN BHD'', ''body'']"

definition two_companies_spans :: "span list" where
  "two_companies_spans =
     [\<lparr>span_text = ''A SDN BHD'', is_bold = True, line_no = 0\<rparr>,
      \<lparr>span_text = ''a1'', is_bold = False, line_no = 1\<rparr>,
      \<lparr>span_text = ''a2'', is_bold = False, line_no = 2\<rparr>,
      \<lparr>span_text = ''B SDN BHD'', is_bold = True, line_no = 3\<rparr>,
      \<lparr>span_text = ''b1'', is_bold = False, line_no = 4\<rparr>,
      \<lparr>span_text = ''b2'', is_bold = False, line_no = 5\<rparr>]"

definition two_companies_lines :: "string list" where
  "two_companies_lines = [''A SDN BHD'', ''a1'', ''a2'', ''B SDN BHD'', ''b1'', ''b2'']"

definition two_companies_headers :: "header list" where
  "two_companies_headers = [(''A SDN BHD'', Some 0), (''B SDN BHD'', Some 3)]"

text \<open>The spans and lines of a page whose last line is a company name.\<close>

definition header_last_spans :: "span list" where
  "header_last_spans =
     [\<lparr>span_text = ''intro'', is_bold = False, line_no = 0\<rparr>,
      \<lparr>span_text = ''A SDN BHD'', is_bold = True, line_no = 1\<rparr>]"

definition header_last_lines :: "string list" where
  "header_last_lines = [''intro'', ''A SDN BHD'']"

text \<open>A page that names the company \<^verbatim>\<open>A SDN BHD\<close> twice, with no other company in between.\<close>

definition twice_spans :: "span list" where
  "twice_spans =
     [\<lparr>span_text = ''A SDN BHD'', is_bold = True, line_no = 0\<rparr>,
      \<lparr>span_text = ''x'', is_bold = False, line_no = 1\<rparr>,
      \<lparr>span_text = ''A SDN BHD'', is_bold = True, line_no = 2\<rparr>,
      \<lparr>span_text = ''y'', is_bold = False, line_no = 3\<rparr>,
      \<lparr>span_text = ''z'', is_bold = False, line_no = 4\<rparr>]"

definition twice_lines :: "string list" where
  "twice_lines = [''A SDN BHD'', ''x'', ''A SDN BHD'', ''y'', ''z'']"

text \<open>A page that names \<^verbatim>\<open>A SDN BHD\<close> twice, with the company \<^verbatim>\<open>B SDN BHD\<close> in between.\<close>

definition between_spans :: "span list" where
  "between_spans =
     [\<lparr>span_text = ''A SDN BHD'', is_bold = True, line_no = 0\<rparr>,
      \<lparr>span_text = ''a1'', is_bold = False, line_no = 1\<rparr>,
      \<lparr>span_text = ''B SDN BHD'', is_bold = True, line_no = 2\<rparr>,
      \<lparr>span_text = ''b1'', is_bold = False, line_no = 3\<rparr>,
      \<lparr>span_text = ''A SDN BHD'', is_bold = True, line_no = 4\<rparr>,
      \<lparr>span_text = ''a2'', is_bold = False, line_no = 5\<rparr>]"

definition between_lines :: "string list" where
  "between_lines = [''A SDN BHD'', ''a1'', ''B SDN BHD'', ''b1'', ''A SDN BHD'', ''a2'']"

text \<open>
  A page with a text block of three lines, the second with a single fragment of blanks,
  and an image block.
\<close>

definition blank_line_page :: raw_page where
  "blank_line_page = RawPage (Some
     [RawBlock (Some 0) (Some
        [RawLine (Some [RawSpan (Some ''  A   SDN  BHD '') (Some ''Arial-Bold'') None,
                        RawSpan (Some ''   '') None None]),
         RawLine (Some [RawSpan (Some '' '') None None]),
         RawLine (Some [RawSpan (Some ''x'') None (Some 700)])]),
      RawBlock (Some 1) None])"

text \<open>Runs of bold spans, all on one line.\<close>

definition acme_run :: "span list" where
  "acme_run =
     [\<lparr>span_text = ''ACME'', is_bold = True, line_no = 0\<rparr>,
      \<lparr>span_text = ''SDN BHD'', is_bold = True, line_no = 0\<rparr>]"





definition split_annotation_run :: "span list" where
  "split_annotation_run =
     [\<lparr>span_text = ''ACME'', is_bold = True, line_no = 0\<rparr>,
      \<lparr>span_text = ''(Co.'', is_bold = True, line_no = 0\<rparr>,
      \<lparr>span_text = ''No.: 123)'', is_bold = True, line_no = 0\<rparr>]"

definition management_span :: span where
  "management_span = \<lparr>span_text = ''Management'', is_bold = True, line_no = 1\<rparr>"

definition plain_run :: "span list" where
  "plain_run =
     [\<lparr>span_text = ''Our'', is_bold = True, line_no = 0\<rparr>,
      \<lparr>span_text = ''Team'', is_bold = True, line_no = 0\<rparr>]"

text \<open>
  A page that names \<^verbatim>\<open>A SDN BHD\<close> on its lines 0 and 2, the second time followed on the
  same line by the company \<^verbatim>\<open>C SDN BHD\<close>.
\<close>

definition shared_line_spans :: "span list" where
  "shared_line_spans =
     [\<lparr>span_text = ''A SDN BHD'', is_bold = True, line_no = 0\<rparr>,
      \<lparr>span_text = ''x'', is_bold = False, line_no = 1\<rparr>,
      \<lparr>span_text = ''A SDN BHD'', is_bold = True, line_no = 2\<rparr>,
      \<lparr>span_text = ''C SDN BHD'', is_bold = True, line_no = 2\<rparr>,
      \<lparr>span_text = ''y'', is_bold = False, line_no = 3\<rparr>]"

definition shared_line_lines :: "string list" where
  "shared_line_lines = [''A SDN BHD'', ''x'', ''A SDN BHD C SDN BHD'', ''y'']"
section \<open>Properties of the deduplication\<close>

lemma dedup_loop_append:
  "dedup_loop items seen out = out @ dedup_loop items seen []"
proof (induction items arbitrary: seen out)
  case Nil
  show ?case by simp
next
  case (Cons x items)
  have "dedup_loop items (insert x seen) (out @ [x])
          = (out @ [x]) @ dedup_loop items (insert x seen) []"
    by (rule Cons.IH)
  moreover have "dedup_loop items (insert x seen) [x]
          = [x] @ dedup_loop items (insert x seen) []"
    using Cons.IH [of "insert x seen" "[x]"] by simp
  moreover have "dedup_loop items seen out = out @ dedup_loop items seen []"
    by (rule Cons.IH)
  ultimately show ?case by simp
qed

lemma dedup_loop_set:
  "set (dedup_loop items seen []) = set items - seen"
proof (induction items arbitrary: seen)
  case Nil
  show ?case by simp
next
  case (Cons x items)
  show ?case
  proof (cases "x \<in> seen")
    case True
    then show ?thesis using Cons.IH [of seen] by auto
  next
    case False
    have "dedup_loop (x # items) seen [] = [x] @ dedup_loop items (insert x seen) []"
      using False dedup_loop_append [of items "insert x seen" "[x]"] by simp
    then show ?thesis using False Cons.IH [of "insert x seen"] by auto
  qed
qed

lemma dedup_loop_distinct:
  "distinct (dedup_loop items seen [])"
proof (induction items arbitrary: seen)
  case Nil
  show ?case by simp
next
  case (Cons x items)
  show ?case
  proof (cases "x \<in> seen")
    case True
    then show ?thesis using Cons.IH [of seen] by simp
  next
    case False
    have "dedup_loop (x # items) seen [] = x # dedup_loop items (insert x seen) []"
      using False dedup_loop_append [of items "insert x seen" "[x]"] by simp
    then show ?thesis
      using Cons.IH [of "insert x seen"] dedup_loop_set [of items "insert x seen"] by simp
  qed
qed

lemma dedup_loop_fixed:
  "distinct items \<Longrightarrow> set items \<inter> seen = {} \<Longrightarrow> dedup_loop items seen [] = items"
proof (induction items arbitrary: seen)
  case Nil
  show ?case by simp
next
  case (Cons x items)
  have notin: "x \<notin> seen" using Cons.prems by simp
  have rest: "dedup_loop items (insert x seen) [] = items"
    using Cons.prems by (intro Cons.IH) auto
  have "dedup_loop (x # items) seen [] = x # dedup_loop items (insert x seen) []"
    using notin dedup_loop_append [of items "insert x seen" "[x]"] by simp
  then show ?case using rest by simp
qed

lemma dedup_preserve_order_distinct: "distinct (dedup_preserve_order items)"
  by (simp add: dedup_preserve_order_def dedup_loop_distinct)

lemma dedup_preserve_order_set: "set (dedup_preserve_order items) = set items"
  by (simp add: dedup_preserve_order_def dedup_loop_set)

text \<open>
  Claim C9.  Order-preserving deduplication is idempotent: for every list of items (of
  strings in particular), deduplicating the output of \<open>dedup_preserve_order\<close> again gives
  that output unchanged.
\<close>

theorem dedup_preserve_order_idem:
  "dedup_preserve_order (dedup_preserve_order (items :: string list))
     = dedup_preserve_order items"
proof -
  have "distinct (dedup_loop items {} [])"
    by (rule dedup_loop_distinct)
  then have "dedup_loop (dedup_loop items {} []) {} [] = dedup_loop items {} []"
    by (rule dedup_loop_fixed) simp
  then show ?thesis by (simp add: dedup_preserve_order_def)
qed


section \<open>Properties of the block slicer\<close>

lemma slice_loop_ranges:
  "slice_loop spans lines hs out =
     (case line_ranges spans lines hs of
        Inl e \<Rightarrow> Inl e
      | Inr rs \<Rightarrow> Inr (out @ map (\<lambda>(h, r). (fst h, block_text lines (fst r) (snd r))) (zip hs rs)))"
proof (induction hs arbitrary: out)
  case Nil
  show ?case by simp
next
  case (Cons h hs)
  obtain name end_idx where h: "h = (name, end_idx)" by (cases h)
  show ?case
  proof (cases "block_range spans lines end_idx hs")
    case (Inl e)
    then show ?thesis by (simp add: h)
  next
    case (Inr r)
    obtain a b where r: "r = (a, b)" by (cases r)
    show ?thesis
      using Inr r Cons.IH [of "out @ [(name, block_text lines a b)]"]
      by (cases "line_ranges spans lines hs") (simp_all add: h)
  qed
qed

lemma block_range_valid:
  assumes "valid_header spans h" and "list_all (valid_header spans) rest"
  shows "block_range spans lines (snd h) rest =
           Inr (term_line spans h + 1,
                max (term_line spans h + 1)
                    (case rest of [] \<Rightarrow> int (length lines) - 1 | h' # _ \<Rightarrow> term_line spans h' - 1))"
proof -
  obtain e where e: "snd h = Some e" "e < length spans"
    using assms(1) by (auto simp: valid_header_def split: option.splits)
  show ?thesis
  proof (cases rest)
    case Nil
    then show ?thesis using e by (simp add: block_range_def term_line_def max_def)
  next
    case (Cons h' hs')
    obtain n' i' where h': "h' = (n', i')" by (cases h')
    obtain e' where e': "i' = Some e'" "e' < length spans"
      using assms(2) Cons h' by (auto simp: valid_header_def split: option.splits)
    show ?thesis using e e' Cons h' by (simp add: block_range_def term_line_def max_def)
  qed
qed

lemma line_ranges_valid:
  "list_all (valid_header spans) hs \<Longrightarrow>
   \<exists>rs. line_ranges spans lines hs = Inr rs \<and> length rs = length hs \<and>
        (\<forall>i < length hs. rs ! i =
           (term_line spans (hs ! i) + 1,
            max (term_line spans (hs ! i) + 1)
                (if Suc i < length hs then term_line spans (hs ! Suc i) - 1
                 else int (length lines) - 1)))"
proof (induction hs)
  case Nil
  show ?case by simp
next
  case (Cons h hs)
  obtain name end_idx where h: "h = (name, end_idx)" by (cases h)
  have vh: "valid_header spans h" and vhs: "list_all (valid_header spans) hs"
    using Cons.prems by simp_all
  obtain rs where rs: "line_ranges spans lines hs = Inr rs" "length rs = length hs"
    and nth: "\<forall>i < length hs. rs ! i =
           (term_line spans (hs ! i) + 1,
            max (term_line spans (hs ! i) + 1)
                (if Suc i < length hs then term_line spans (hs ! Suc i) - 1
                 else int (length lines) - 1))"
    using Cons.IH [OF vhs] by blast
  let ?r = "(term_line spans h + 1,
                max (term_line spans h + 1)
                    (case hs of [] \<Rightarrow> int (length lines) - 1 | h' # _ \<Rightarrow> term_line spans h' - 1))"
  have br: "block_range spans lines end_idx hs = Inr ?r"
    using block_range_valid [OF vh vhs, of lines] by (simp add: h)
  have lr: "line_ranges spans lines (h # hs) = Inr (?r # rs)"
    using br rs by (simp add: h)
  have "\<forall>i < length (h # hs). (?r # rs) ! i =
           (term_line spans ((h # hs) ! i) + 1,
            max (term_line spans ((h # hs) ! i) + 1)
                (if Suc i < length (h # hs) then term_line spans ((h # hs) ! Suc i) - 1
                 else int (length lines) - 1))"
  proof (intro allI impI)
    fix i assume i: "i < length (h # hs)"
    show "(?r # rs) ! i =
           (term_line spans ((h # hs) ! i) + 1,
            max (term_line spans ((h # hs) ! i) + 1)
                (if Suc i < length (h # hs) then term_line spans ((h # hs) ! Suc i) - 1
                 else int (length lines) - 1))"
    proof (cases i)
      case 0
      then show ?thesis by (cases hs) simp_all
    next
      case (Suc j)
      then have "j < length hs" using i by simp
      then show ?thesis using nth Suc by simp
    qed
  qed
  then show ?case using lr rs by simp
qed


lemma map_nth_upt_take_drop:
  "j \<le> length xs \<Longrightarrow> map (\<lambda>k. xs ! k) [i..<j] = take (j - i) (drop i xs)"
  by (rule nth_equalityI) auto

lemma py_slice_upto:
  assumes "0 \<le> a" and True: "a \<le> b"
  shows "py_slice xs a (b + 1) = map (\<lambda>l. xs ! nat l) (filter (\<lambda>l. l < int (length xs)) [a..b])"
proof -
  define n where "n = length xs"
  have lo: "py_bound n a = min n (nat a)" using assms by (simp add: py_bound_def)
  have hi: "py_bound n (b + 1) = min n (nat b + 1)" using assms True by (auto simp: py_bound_def)
  have "filter (\<lambda>l. l < int n) [a..b] = map int [min n (nat a) ..< min n (nat b + 1)]"
  proof (rule sorted_distinct_set_unique)
    show "sorted (filter (\<lambda>l. l < int n) [a..b])" by (simp add: sorted_wrt_filter)
    show "distinct (filter (\<lambda>l. l < int n) [a..b])" by simp
    show "sorted (map int [min n (nat a) ..< min n (nat b + 1)])"
      by (simp add: sorted_map)
    show "distinct (map int [min n (nat a) ..< min n (nat b + 1)])"
      by (simp add: distinct_map)
    show "set (filter (\<lambda>l. l < int n) [a..b]) = set (map int [min n (nat a) ..< min n (nat b + 1)])"
    proof (intro set_eqI iffI)
      fix l assume "l \<in> set (filter (\<lambda>l. l < int n) [a..b])"
      then have "a \<le> l" "l \<le> b" "l < int n" by auto
      then have "l = int (nat l)" "nat l \<in> {min n (nat a) ..< min n (nat b + 1)}"
        using assms by auto
      then show "l \<in> set (map int [min n (nat a) ..< min n (nat b + 1)])"
        by (metis image_eqI set_map set_upt)
    next
      fix l assume "l \<in> set (map int [min n (nat a) ..< min n (nat b + 1)])"
      then obtain k where "l = int k" "min n (nat a) \<le> k" "k < min n (nat b + 1)" by auto
      then show "l \<in> set (filter (\<lambda>l. l < int n) [a..b])" using assms True by auto
    qed
  qed
  then have "map (\<lambda>l. xs ! nat l) (filter (\<lambda>l. l < int n) [a..b])
               = map (\<lambda>k. xs ! k) [min n (nat a) ..< min n (nat b + 1)]"
    by (simp add: comp_def)
  also have "\<dots> = take (min n (nat b + 1) - min n (nat a)) (drop (min n (nat a)) xs)"
    by (rule map_nth_upt_take_drop) (simp add: n_def)
  finally show ?thesis
    using lo hi by (simp add: py_slice_def Let_def n_def)
qed


text \<open>
  Claim C1, as amended.  For every sequence of headers whose terminating span indices
  are indices of the span sequence (on lines numbered from 0), the block slicer returns
  exactly one block per header, with the header's name, in header order.  The line range
  computed for header \<open>i\<close> starts on the line after its terminating line and stops on the
  line before the next header's terminating line (on the last line of the page for the
  last header), or on its own start line where that would be earlier; the body is made
  of the non-empty lines of that range.  Every line strictly between the terminating
  lines of two consecutive headers lies in the range of the first.  Where the
  terminating lines of the headers strictly increase, the ranges are pairwise disjoint.
\<close>

theorem slice_company_blocks_ranges:
  assumes valid: "list_all (valid_header spans) headers"
    and nonneg: "list_all (\<lambda>h. 0 \<le> term_line spans h) headers"
  shows "\<exists>blocks ranges.
           slice_company_blocks headers spans lines = Inr blocks
         \<and> line_ranges spans lines headers = Inr ranges
         \<and> length blocks = length headers \<and> length ranges = length headers
         \<and> map fst blocks = map fst headers
         \<and> (\<forall>i < length headers.
               ranges ! i =
                 (term_line spans (headers ! i) + 1,
                  max (term_line spans (headers ! i) + 1)
                      (if Suc i < length headers then term_line spans (headers ! Suc i) - 1
                       else int (length lines) - 1))
             \<and> snd (blocks ! i) =
                 join [LF] (filter (\<lambda>ln. ln \<noteq> [])
                   (map (\<lambda>l. lines ! nat l)
                      (filter (\<lambda>l. l < int (length lines)) [fst (ranges ! i) .. snd (ranges ! i)]))))
         \<and> (\<forall>i l. Suc i < length headers
                  \<and> term_line spans (headers ! i) < l \<and> l < term_line spans (headers ! Suc i)
               \<longrightarrow> fst (ranges ! i) \<le> l \<and> l \<le> snd (ranges ! i))
         \<and> (sorted_wrt (<) (map (term_line spans) headers)
               \<longrightarrow> (\<forall>i j. i < j \<and> j < length headers \<longrightarrow> snd (ranges ! i) < fst (ranges ! j)))"
proof -
  let ?L = "\<lambda>i. term_line spans (headers ! i)"
  obtain ranges where lr: "line_ranges spans lines headers = Inr ranges"
    and len: "length ranges = length headers"
    and nth: "\<forall>i < length headers. ranges ! i =
           (?L i + 1, max (?L i + 1)
                (if Suc i < length headers then ?L (Suc i) - 1 else int (length lines) - 1))"
    using line_ranges_valid [OF valid, of lines] by blast
  define blocks where
    "blocks = map (\<lambda>(h, r). (fst h, block_text lines (fst r) (snd r))) (zip headers ranges)"
  have sl: "slice_company_blocks headers spans lines = Inr blocks"
    by (simp add: slice_company_blocks_def slice_loop_ranges lr blocks_def)
  have blen: "length blocks = length headers"
    by (simp add: blocks_def len)
  have names: "map fst blocks = map fst headers"
    by (rule nth_equalityI) (simp_all add: blocks_def len)
  have body: "snd (blocks ! i) =
                 join [LF] (filter (\<lambda>ln. ln \<noteq> [])
                   (map (\<lambda>l. lines ! nat l)
                      (filter (\<lambda>l. l < int (length lines)) [fst (ranges ! i) .. snd (ranges ! i)])))"
    if i: "i < length headers" for i
  proof -
    have "0 \<le> ?L i" using nonneg i by (simp add: list_all_length)
    then have "0 \<le> fst (ranges ! i)" "fst (ranges ! i) \<le> snd (ranges ! i)"
      using nth i by simp_all
    then have "py_slice lines (fst (ranges ! i)) (snd (ranges ! i) + 1)
                 = map (\<lambda>l. lines ! nat l)
                      (filter (\<lambda>l. l < int (length lines)) [fst (ranges ! i) .. snd (ranges ! i)])"
      by (rule py_slice_upto)
    moreover have "snd (blocks ! i) = block_text lines (fst (ranges ! i)) (snd (ranges ! i))"
      using i by (simp add: blocks_def len)
    ultimately show ?thesis by (simp add: block_text_def)
  qed
  have cover: "fst (ranges ! i) \<le> l \<and> l \<le> snd (ranges ! i)"
    if "Suc i < length headers" "?L i < l" "l < ?L (Suc i)" for i l
  proof -
    have "ranges ! i = (?L i + 1, max (?L i + 1) (?L (Suc i) - 1))"
      using nth that(1) by simp
    then show ?thesis using that(2,3) by simp
  qed
  have disjoint: "snd (ranges ! i) < fst (ranges ! j)"
    if sorted: "sorted_wrt (<) (map (term_line spans) headers)"
      and ij: "i < j" "j < length headers" for i j
  proof -
    have less: "?L a < ?L b" if "a < b" "b < length headers" for a b
      using sorted that sorted_wrt_iff_nth_less [of "(<)" "map (term_line spans) headers"]
      by simp
    have si: "Suc i < length headers" using ij by simp
    have "?L (Suc i) \<le> ?L j"
    proof (cases "Suc i = j")
      case True
      then show ?thesis by simp
    next
      case False
      then have "Suc i < j" using ij by simp
      then show ?thesis using less [of "Suc i" j] ij by simp
    qed
    moreover have "?L i < ?L (Suc i)" using less [of i "Suc i"] si by simp
    moreover have "ranges ! i = (?L i + 1, max (?L i + 1) (?L (Suc i) - 1))"
      using nth si by simp
    moreover have "fst (ranges ! j) = ?L j + 1" using nth ij by simp
    ultimately show ?thesis by simp
  qed
  show ?thesis
    using sl lr blen len names nth body cover disjoint by blast
qed



lemma py_slice_past_end: "int (length xs) \<le> a \<Longrightarrow> py_slice xs a b = []"
  by (simp add: py_slice_def py_bound_def Let_def)

text \<open>
  Claim C10.  If the terminating span of a header lies on the last line of the page (or
  beyond), so that the start line of its block is past the last line index, the block
  slicer still returns a block for every header, and the block of that header has an
  empty body: the slice of the lines is empty, no line is read out of range.
\<close>

theorem slice_company_blocks_last_line:
  assumes valid: "list_all (valid_header spans) headers"
    and i: "i < length headers"
    and past: "int (length lines) \<le> term_line spans (headers ! i) + 1"
  shows "\<exists>blocks. slice_company_blocks headers spans lines = Inr blocks
           \<and> length blocks = length headers
           \<and> blocks ! i = (fst (headers ! i), [])"
proof -
  obtain ranges where lr: "line_ranges spans lines headers = Inr ranges"
    and len: "length ranges = length headers"
    and nth: "\<forall>i < length headers. ranges ! i =
           (term_line spans (headers ! i) + 1,
            max (term_line spans (headers ! i) + 1)
                (if Suc i < length headers then term_line spans (headers ! Suc i) - 1
                 else int (length lines) - 1))"
    using line_ranges_valid [OF valid, of lines] by blast
  define blocks where
    "blocks = map (\<lambda>(h, r). (fst h, block_text lines (fst r) (snd r))) (zip headers ranges)"
  have sl: "slice_company_blocks headers spans lines = Inr blocks"
    by (simp add: slice_company_blocks_def slice_loop_ranges lr blocks_def)
  have "fst (ranges ! i) = term_line spans (headers ! i) + 1"
    using nth i by simp
  then have "py_slice lines (fst (ranges ! i)) (snd (ranges ! i) + 1) = []"
    using past by (simp add: py_slice_past_end)
  then have "block_text lines (fst (ranges ! i)) (snd (ranges ! i)) = []"
    by (simp add: block_text_def)
  then have "blocks ! i = (fst (headers ! i), [])"
    using i len by (simp add: blocks_def)
  moreover have "length blocks = length headers"
    by (simp add: blocks_def len)
  ultimately show ?thesis using sl by blast
qed


section \<open>Properties of the header detector\<close>

lemma flush_hinv: "hinv P st \<Longrightarrow> hinv P (flush_if_company st)"
  by (auto simp: hinv_def flush_if_company_def Let_def good_header_def split: option.splits)

lemma flush_buf [simp]: "buf (flush_if_company st) = []"
  by (simp add: flush_if_company_def Let_def)

lemma step_hinv:
  assumes "hinv P st" and "accepted sp \<Longrightarrow> P i"
  shows "hinv P (step i sp st)"
proof (cases "accepted sp")
  case False
  then show ?thesis
    using assms(1) by (auto simp: step_def Let_def accepted_def intro: flush_hinv)
next
  case True
  let ?st = "st\<lparr>buf := buf st @ [span_text sp], last_idx := Some i\<rparr>"
  have "hinv P ?st" using assms True by (simp add: hinv_def)
  then have "hinv P (flush_if_company ?st)" by (rule flush_hinv)
  then show ?thesis
    using True \<open>hinv P ?st\<close> by (simp add: step_def Let_def accepted_def)
qed

lemma scan_hinv:
  "hinv P st \<Longrightarrow> (\<forall>j < length sps. accepted (sps ! j) \<longrightarrow> P (i + j)) \<Longrightarrow> hinv P (scan i sps st)"
proof (induction sps arbitrary: i st)
  case Nil
  then show ?case by simp
next
  case (Cons sp sps)
  have "hinv P (step i sp st)"
    using Cons.prems by (intro step_hinv) auto
  moreover have "\<forall>j < length sps. accepted (sps ! j) \<longrightarrow> P (Suc i + j)"
    using Cons.prems(2) by auto
  ultimately show ?case using Cons.IH [of "step i sp st" "Suc i"] by simp
qed

lemma candidates_good:
  "list_all (good_header (\<lambda>e. e < length spans \<and> accepted (spans ! e))) (candidates spans)"
proof -
  let ?P = "\<lambda>e. e < length spans \<and> accepted (spans ! e)"
  have "hinv ?P \<lparr>results = [], buf = [], last_idx = None\<rparr>"
    by (simp add: hinv_def)
  then have "hinv ?P (scan 0 spans \<lparr>results = [], buf = [], last_idx = None\<rparr>)"
    by (rule scan_hinv) simp
  then have "hinv ?P (flush_if_company (scan 0 spans \<lparr>results = [], buf = [], last_idx = None\<rparr>))"
    by (rule flush_hinv)
  then show ?thesis by (simp add: hinv_def candidates_def scanned_def)
qed

lemma unique_loop_append:
  "unique_loop rs seen out = out @ unique_loop rs seen []"
proof (induction rs arbitrary: seen out)
  case Nil
  show ?case by simp
next
  case (Cons r rs)
  obtain name idx where r: "r = (name, idx)" by (cases r)
  show ?case
    using Cons.IH [of "insert name seen" "out @ [(name, idx)]"]
      Cons.IH [of "insert name seen" "[(name, idx)]"] Cons.IH [of seen out]
    by (simp add: r)
qed

lemma unique_loop_Cons:
  "unique_loop ((name, idx) # rs) seen [] =
     (if name \<notin> seen then (name, idx) # unique_loop rs (insert name seen) []
      else unique_loop rs seen [])"
  using unique_loop_append [of rs "insert name seen" "[(name, idx)]"] by simp

lemma unique_loop_set: "set (unique_loop rs seen []) \<subseteq> set rs"
proof (induction rs arbitrary: seen)
  case Nil
  show ?case by simp
next
  case (Cons r rs)
  obtain name idx where r: "r = (name, idx)" by (cases r)
  show ?case
    using Cons.IH [of seen] Cons.IH [of "insert name seen"]
    by (auto simp add: r unique_loop_Cons simp del: unique_loop.simps)
qed

lemma extract_headers_subset: "set (extract_headers_from_bold spans) \<subseteq> set (candidates spans)"
  by (simp add: extract_headers_from_bold_def unique_loop_set)


lemma unique_loop_find:
  "find (\<lambda>h. fst h = n) (unique_loop rs seen []) =
     (if n \<in> seen then None else find (\<lambda>h. fst h = n) rs)"
proof (induction rs arbitrary: seen)
  case Nil
  show ?case by simp
next
  case (Cons r rs)
  obtain name idx where r: "r = (name, idx)" by (cases r)
  show ?case
    using Cons.IH [of seen] Cons.IH [of "insert name seen"]
    by (auto simp add: r unique_loop_Cons simp del: unique_loop.simps)
qed

lemma unique_loop_names:
  "distinct (map fst (unique_loop rs seen [])) \<and> fst ` set (unique_loop rs seen []) \<inter> seen = {}"
proof (induction rs arbitrary: seen)
  case Nil
  show ?case by simp
next
  case (Cons r rs)
  obtain name idx where r: "r = (name, idx)" by (cases r)
  show ?case
    using Cons.IH [of seen] Cons.IH [of "insert name seen"]
    by (auto simp add: r unique_loop_Cons simp del: unique_loop.simps)
qed

lemma extract_headers_distinct: "distinct (map fst (extract_headers_from_bold spans))"
  by (simp add: extract_headers_from_bold_def unique_loop_names)

lemma find_filter_distinct:
  "distinct (map fst xs) \<Longrightarrow> find (\<lambda>h. fst h = n) xs = Some x \<Longrightarrow> filter (\<lambda>h. fst h = n) xs = [x]"
proof (induction xs)
  case Nil
  then show ?case by simp
next
  case (Cons y ys)
  show ?case
  proof (cases "fst y = n")
    case True
    then have "x = y" using Cons.prems(2) by simp
    moreover have "fst y \<notin> fst ` set ys"
      using Cons.prems(1) by simp
    then have "\<forall>h \<in> set ys. fst h \<noteq> n"
      using True by (metis imageI)
    then have "filter (\<lambda>h. fst h = n) ys = []"
      by (simp add: filter_empty_conv)
    ultimately show ?thesis using True by simp
  next
    case False
    then show ?thesis using Cons by simp
  qed
qed

lemma extract_headers_valid: "list_all (valid_header spans) (extract_headers_from_bold spans)"
proof -
  have "valid_header spans h" if "h \<in> set (extract_headers_from_bold spans)" for h
  proof -
    have "h \<in> set (candidates spans)" using that extract_headers_subset by blast
    then have "good_header (\<lambda>e. e < length spans \<and> accepted (spans ! e)) h"
      using candidates_good [of spans] by (simp add: list_all_iff)
    then show ?thesis by (auto simp: good_header_def valid_header_def split: option.splits)
  qed
  then show ?thesis by (simp add: list_all_iff)
qed




lemma filter_fst_length:
  "length (filter (\<lambda>b. fst b = n) xs) = length (filter (\<lambda>m. m = n) (map fst xs))"
  by (induction xs) simp_all

lemma find_nth_Some:
  "i < length xs \<Longrightarrow> P (xs ! i) \<Longrightarrow> \<exists>x. find P xs = Some x"
  by (cases "find P xs") (auto simp: find_None_iff)


section \<open>Properties of the layout flattener\<close>

lemma span_loop_eq:
  "span_loop n ss spans acc =
     (spans @ map (\<lambda>s. \<lparr>span_text = fragment_text s, is_bold = is_bold_span s, line_no = n\<rparr>)
                (filter (\<lambda>s. fragment_text s \<noteq> []) ss),
      acc @ filter (\<lambda>t. t \<noteq> []) (map fragment_text ss))"
  by (induction ss arbitrary: spans acc) (simp_all add: Let_def fragment_text_def)

lemma line_step_inv:
  assumes "flat_inv vs (spans, lines, n)"
  shows "flat_inv (vs @ [l])
           (fst (span_loop (n + 1) (get_or (rl_spans l) []) spans []),
            lines @ [strip (join '' '' (snd (span_loop (n + 1) (get_or (rl_spans l) []) spans [])))],
            n + 1)"
proof -
  let ?ss = "get_or (rl_spans l) []"
  let ?new = "map (\<lambda>s. \<lparr>span_text = fragment_text s, is_bold = is_bold_span s, line_no = n + 1\<rparr>)
                (filter (\<lambda>s. fragment_text s \<noteq> []) ?ss)"
  have n: "n = int (length vs) - 1" and lines: "lines = map line_text vs"
    and sorted: "sorted (map line_no spans)"
    and bound: "\<forall>sp \<in> set spans. 0 \<le> line_no sp \<and> line_no sp \<le> n"
    and frag: "\<forall>i < length vs. map span_text (filter (\<lambda>sp. line_no sp = int i) spans)
                        = fragment_texts (vs ! i)"
    using assms by (auto simp: flat_inv_def list_all_iff)
  have new_no: "\<forall>sp \<in> set ?new. line_no sp = n + 1" by auto
  have "map line_no ?new = replicate (length ?new) (n + 1)"
    by (simp add: comp_def map_replicate_const)
  then have "sorted (map line_no ?new)" "set (map line_no ?new) \<subseteq> {n + 1}"
    by (simp_all only: sorted_replicate set_replicate_conv_if split: if_splits, simp)
  then have s1: "sorted (map line_no (spans @ ?new))"
    using sorted bound by (fastforce simp: sorted_append)
  have s2: "\<forall>sp \<in> set (spans @ ?new). 0 \<le> line_no sp \<and> line_no sp \<le> n + 1"
    using bound n by auto
  have old: "filter (\<lambda>sp. line_no sp = int i) (spans @ ?new)
               = filter (\<lambda>sp. line_no sp = int i) spans" if "i < length vs" for i
  proof -
    have "int i \<noteq> n + 1" using that n by simp
    then have "filter (\<lambda>sp. line_no sp = int i) ?new = []"
      by (simp add: filter_empty_conv)
    then show ?thesis by simp
  qed
  have last: "map span_text (filter (\<lambda>sp. line_no sp = int (length vs)) (spans @ ?new))
                = fragment_texts l"
  proof -
    have "filter (\<lambda>sp. line_no sp = int (length vs)) spans = []"
      using bound n by (auto simp: filter_empty_conv)
    moreover have "filter (\<lambda>sp. line_no sp = int (length vs)) ?new = ?new"
      using n by (simp add: filter_id_conv)
    moreover have "map span_text ?new = fragment_texts l"
      by (simp add: fragment_texts_def filter_map comp_def)
    ultimately show ?thesis by simp
  qed
  have s3: "\<forall>i < length (vs @ [l]).
              map span_text (filter (\<lambda>sp. line_no sp = int i) (spans @ ?new))
                = fragment_texts ((vs @ [l]) ! i)"
  proof (intro allI impI)
    fix i assume "i < length (vs @ [l])"
    then consider "i < length vs" | "i = length vs" by fastforce
    then show "map span_text (filter (\<lambda>sp. line_no sp = int i) (spans @ ?new))
                = fragment_texts ((vs @ [l]) ! i)"
    proof cases
      case 1
      then show ?thesis using old frag by (simp add: nth_append)
    next
      case 2
      then show ?thesis using last by simp
    qed
  qed
  have lt: "strip (join '' '' (filter (\<lambda>t. t \<noteq> []) (map fragment_text ?ss))) = line_text l"
    by (simp add: line_text_def fragment_texts_def)
  have eq: "span_loop (n + 1) ?ss spans [] = (spans @ ?new, filter (\<lambda>t. t \<noteq> []) (map fragment_text ?ss))"
    by (simp add: span_loop_eq)
  have a: "n + 1 = int (length (vs @ [l])) - 1" using n by simp
  have b: "lines @ [line_text l] = map line_text (vs @ [l])" using lines by simp
  have c: "list_all (\<lambda>sp. 0 \<le> line_no sp \<and> line_no sp \<le> n + 1) (spans @ ?new)"
    using s2 by (simp only: list_all_iff)
  have d: "list_all (\<lambda>i. map span_text (filter (\<lambda>sp. line_no sp = int i) (spans @ ?new))
                        = fragment_texts ((vs @ [l]) ! i)) [0 ..< length (vs @ [l])]"
    unfolding list_all_iff
  proof
    fix i assume "i \<in> set [0 ..< length (vs @ [l])]"
    then have "i < length (vs @ [l])" by auto
    then show "map span_text (filter (\<lambda>sp. line_no sp = int i) (spans @ ?new))
                 = fragment_texts ((vs @ [l]) ! i)"
      by (rule s3 [rule_format])
  qed
  show ?thesis
    by (simp only: eq fst_conv snd_conv lt flat_inv_def prod.case) (intro conjI a b s1 c d)
qed

lemma line_loop_inv:
  "flat_inv vs st \<Longrightarrow> flat_inv (vs @ ls) (line_loop ls st)"
proof (induction ls arbitrary: vs st)
  case Nil
  then show ?case by simp
next
  case (Cons l ls)
  obtain spans lines n where st: "st = (spans, lines, n)" by (cases st)
  have "flat_inv (vs @ [l])
           (fst (span_loop (n + 1) (get_or (rl_spans l) []) spans []),
            lines @ [strip (join '' '' (snd (span_loop (n + 1) (get_or (rl_spans l) []) spans [])))],
            n + 1)"
    using Cons.prems st by (intro line_step_inv) simp
  then have "flat_inv ((vs @ [l]) @ ls)
           (line_loop ls (fst (span_loop (n + 1) (get_or (rl_spans l) []) spans []),
            lines @ [strip (join '' '' (snd (span_loop (n + 1) (get_or (rl_spans l) []) spans [])))],
            n + 1))"
    by (rule Cons.IH)
  then show ?case by (simp add: st Let_def split_beta)
qed

lemma block_loop_inv:
  "flat_inv vs st \<Longrightarrow> flat_inv (vs @ visual_lines bs) (block_loop bs st)"
proof (induction bs arbitrary: vs st)
  case Nil
  then show ?case by (simp add: visual_lines_def)
next
  case (Cons b bs)
  show ?case
  proof (cases "rb_type b = Some 0")
    case False
    then show ?thesis using Cons.IH [OF Cons.prems] by (simp add: visual_lines_def)
  next
    case True
    have "flat_inv (vs @ get_or (rb_lines b) []) (line_loop (get_or (rb_lines b) []) st)"
      using Cons.prems by (rule line_loop_inv)
    then have "flat_inv ((vs @ get_or (rb_lines b) []) @ visual_lines bs)
                 (block_loop bs (line_loop (get_or (rb_lines b) []) st))"
      by (rule Cons.IH)
    then show ?thesis using True by (simp add: visual_lines_def)
  qed
qed

lemma flat_inv_page:
  "flat_inv (visual_lines (get_or (rp_blocks page) []))
     (block_loop (get_or (rp_blocks page) []) ([], [], - 1))"
proof -
  have "flat_inv [] ([], [], - 1)" by (simp add: flat_inv_def)
  then show ?thesis using block_loop_inv [of "[]"] by fastforce
qed


lemma line_text_blank: "fragment_texts l = [] \<Longrightarrow> line_text l = []"
  by (simp add: line_text_def strip_def)

text \<open>
  Claim C7.  For every page layout, the line numbers of the spans that the flattener
  returns do not decrease along the sequence; the flattener returns exactly one line per
  visual text line of the page (the lines of the blocks of type 0), in order, the text
  of a line being its non-empty fragment texts joined by spaces, and the empty text for
  a line whose fragments are all empty after the whitespace collapse; and the line
  number of every span is the position of its line in the sequence of lines: the spans
  numbered \<open>i\<close> are exactly the non-empty fragments of the visual line \<open>i\<close>, in order.
\<close>

theorem get_flat_spans_with_lines_ordered:
  "case get_flat_spans_with_lines page of (spans, lines) \<Rightarrow>
       sorted (map line_no spans)
     \<and> length lines = length (visual_lines (get_or (rp_blocks page) []))
     \<and> lines = map line_text (visual_lines (get_or (rp_blocks page) []))
     \<and> list_all (\<lambda>i. fragment_texts (visual_lines (get_or (rp_blocks page) []) ! i) = []
                        \<longrightarrow> lines ! i = []) [0 ..< length lines]
     \<and> list_all (\<lambda>sp. 0 \<le> line_no sp \<and> nat (line_no sp) < length lines) spans
     \<and> list_all (\<lambda>i. map span_text (filter (\<lambda>sp. line_no sp = int i) spans)
                        = fragment_texts (visual_lines (get_or (rp_blocks page) []) ! i))
          [0 ..< length lines]"
proof -
  let ?vs = "visual_lines (get_or (rp_blocks page) [])"
  obtain spans lines n where
    st: "block_loop (get_or (rp_blocks page) []) ([], [], - 1) = (spans, lines, n)"
    by (cases "block_loop (get_or (rp_blocks page) []) ([], [], - 1)")
  have inv: "flat_inv ?vs (spans, lines, n)"
    using flat_inv_page [of page] by (simp add: st)
  have n: "n = int (length ?vs) - 1" and lines: "lines = map line_text ?vs"
    and sorted: "sorted (map line_no spans)"
    and bound: "list_all (\<lambda>sp. 0 \<le> line_no sp \<and> line_no sp \<le> n) spans"
    and frag: "list_all (\<lambda>i. map span_text (filter (\<lambda>sp. line_no sp = int i) spans)
                        = fragment_texts (?vs ! i)) [0 ..< length ?vs]"
    using inv unfolding flat_inv_def prod.case by blast+
  have len: "length lines = length ?vs" using lines by simp
  have blank: "list_all (\<lambda>i. fragment_texts (?vs ! i) = [] \<longrightarrow> lines ! i = []) [0 ..< length lines]"
    using lines by (simp add: list_all_iff line_text_blank)
  have idx: "list_all (\<lambda>sp. 0 \<le> line_no sp \<and> nat (line_no sp) < length lines) spans"
    using bound n len by (auto simp: list_all_iff)
  have res: "get_flat_spans_with_lines page = (spans, lines)"
    by (simp add: get_flat_spans_with_lines_def st)
  show ?thesis
    unfolding res prod.case
    by (intro conjI sorted len lines blank idx frag [folded len])
qed

section \<open>Properties of the matcher and of the contact extractor\<close>

lemma give_back_through:
  "give_back k c i lo n = Some res \<Longrightarrow> \<exists>m. k (i + m, c) = Some res"
proof (induction n)
  case 0
  then show ?case by (auto split: if_splits intro: exI [of _ 0])
next
  case (Suc n)
  show ?case
  proof (cases "k (i + Suc n, c)")
    case None
    then show ?thesis using Suc by (auto split: if_splits)
  next
    case (Some r)
    then have "r = res" using Suc.prems by (auto split: if_splits)
    then show ?thesis using Some by blast
  qed
qed

lemma rmatch_through:
  "rmatch r s k st = Some res \<Longrightarrow>
     \<exists>st'. k st' = Some res \<and> fst st \<le> fst st'
          \<and> (\<forall>g. snd st g \<noteq> None \<or> sets g r \<longrightarrow> snd st' g \<noteq> None)"
proof (induction r arbitrary: k st res)
  case (Cls p)
  obtain i c where st: "st = (i, c)" by (cases st)
  from Cls have "k (Suc i, c) = Some res" by (auto simp: st split: if_splits)
  then show ?case by (intro exI [of _ "(Suc i, c)"]) (simp add: st)
next
  case Eps
  obtain i c where st: "st = (i, c)" by (cases st)
  from Eps show ?case by (intro exI [of _ st]) (simp add: st)
next
  case (Seq a b)
  obtain i c where st: "st = (i, c)" by (cases st)
  from Seq.prems have "rmatch a s (\<lambda>st. rmatch b s k st) st = Some res" by (simp add: st)
  then obtain st1 where 1: "rmatch b s k st1 = Some res" "fst st \<le> fst st1"
    "\<forall>g. snd st g \<noteq> None \<or> sets g a \<longrightarrow> snd st1 g \<noteq> None"
    using Seq.IH(1) by blast
  then obtain st2 where 2: "k st2 = Some res" "fst st1 \<le> fst st2"
    "\<forall>g. snd st1 g \<noteq> None \<or> sets g b \<longrightarrow> snd st2 g \<noteq> None"
    using Seq.IH(2) by blast
  show ?case using 1 2 by (intro exI [of _ st2]) auto
next
  case (Alt a b)
  obtain i c where st: "st = (i, c)" by (cases st)
  show ?case
  proof (cases "rmatch a s k st")
    case None
    then have "rmatch b s k st = Some res" using Alt.prems by (simp add: st)
    then show ?thesis using Alt.IH(2) by fastforce
  next
    case (Some r)
    then have "rmatch a s k st = Some res" using Alt.prems by (simp add: st)
    then show ?thesis using Alt.IH(1) by fastforce
  qed
next
  case (Opt a)
  obtain i c where st: "st = (i, c)" by (cases st)
  show ?case
  proof (cases "rmatch a s k st")
    case None
    then have "k st = Some res" using Opt.prems by (simp add: st)
    then show ?thesis by (intro exI [of _ st]) simp
  next
    case (Some r)
    then have "rmatch a s k st = Some res" using Opt.prems by (simp add: st)
    then show ?thesis using Opt.IH by fastforce
  qed
next
  case (Rep lo hi p)
  obtain i c where st: "st = (i, c)" by (cases st)
  from Rep obtain m where "k (i + m, c) = Some res"
    using give_back_through by (fastforce simp: st)
  then show ?case by (intro exI [of _ "(i + m, c)"]) (simp add: st)
next
  case (Grp g a)
  obtain i c where st: "st = (i, c)" by (cases st)
  from Grp.prems have "rmatch a s (\<lambda>(j, c'). k (j, c'(g \<mapsto> (i, j)))) st = Some res"
    by (simp add: st)
  then obtain st1 where 1: "(\<lambda>(j, c'). k (j, c'(g \<mapsto> (i, j)))) st1 = Some res" "fst st \<le> fst st1"
    "\<forall>h. snd st h \<noteq> None \<or> sets h a \<longrightarrow> snd st1 h \<noteq> None"
    using Grp.IH by blast
  obtain j c' where st1: "st1 = (j, c')" by (cases st1)
  show ?case using 1 by (intro exI [of _ "(j, c'(g \<mapsto> (i, j)))"]) (auto simp: st1)
next
  case WordB
  obtain i c where st: "st = (i, c)" by (cases st)
  from WordB have "k st = Some res" by (auto simp: st split: if_splits)
  then show ?case by (intro exI [of _ st]) simp
qed

lemma match_at_group:
  "sets g r \<Longrightarrow> match_at r s i = Some m \<Longrightarrow> group s m g \<noteq> None"
proof -
  assume g: "sets g r" and m: "match_at r s i = Some m"
  obtain a b c where abc: "m = (a, b, c)" by (cases m)
  from m have "rmatch r s Some (i, Map.empty) = Some (b, c)"
    by (auto simp: match_at_def abc)
  then have "c g \<noteq> None" using rmatch_through [of r s Some "(i, Map.empty)" "(b, c)"] g by auto
  then show ?thesis by (auto simp: group_def abc)
qed

lemma finditer_from_matches:
  "m \<in> set (finditer_from r s pos) \<Longrightarrow> \<exists>i. match_at r s i = Some m"
proof (induction r s pos rule: finditer_from.induct)
  case (1 r s pos)
  show ?case
  proof (cases "length s < pos")
    case True
    then show ?thesis using "1.prems" by simp
  next
    case False
    show ?thesis
    proof (cases "match_at r s pos")
      case None
      then show ?thesis using "1.IH"(1) "1.prems" False by simp
    next
      case (Some x)
      obtain i j c where x: "x = (i, j, c)" by (cases x)
      have "m = x \<or> m \<in> set (finditer_from r s (if pos < j then j else Suc pos))"
        using "1.prems" False Some x by simp
      then show ?thesis
        using "1.IH"(2) [OF False Some] x Some by (auto simp del: finditer_from.simps)
    qed
  qed
qed

lemma finditer_from_none:
  "\<forall>i. pos \<le> i \<and> i \<le> length s \<longrightarrow> match_at r s i = None \<Longrightarrow> finditer_from r s pos = []"
proof (induction r s pos rule: finditer_from.induct)
  case (1 r s pos)
  show ?case
  proof (cases "length s < pos")
    case True
    then show ?thesis by simp
  next
    case False
    then have none: "match_at r s pos = None" using "1.prems" by simp
    have "finditer_from r s (Suc pos) = []"
      using "1.IH"(1) [OF False none] "1.prems" by simp
    then show ?thesis using False none by simp
  qed
qed

lemma finditer_none: "\<not> occurs r s \<Longrightarrow> finditer r s = []"
proof -
  assume no: "\<not> occurs r s"
  have "match_at r s i = None" if "i \<le> length s" for i
  proof -
    have "i \<in> set [0 ..< Suc (length s)]" using that by auto
    then show ?thesis using no unfolding occurs_def list_ex_iff by blast
  qed
  then show ?thesis
    unfolding finditer_def by (intro finditer_from_none) simp
qed

lemma phones_loop_total:
  "\<forall>m \<in> set ms. group s m 1 \<noteq> None \<Longrightarrow> \<exists>phones. phones_loop s ms acc = Inr phones"
  by (induction ms arbitrary: acc) auto


lemma sets_TEL_LABEL_RE: "sets 1 TEL_LABEL_RE"
  by (simp add: TEL_LABEL_RE_def seqs_def)

text \<open>
  Claim C6.  The contact extractor never fails: it returns its two lists for every block
  text.  For a block text in which the telephone-label pattern does not occur, the list
  of phones is empty, whatever phone-shaped texts the block has; and for a block text in
  which the email pattern does not occur, the list of emails is empty.
\<close>

theorem extract_contacts_no_match:
  "\<exists>phones emails. extract_contacts_from_block t = Inr (phones, emails)
      \<and> (\<not> occurs TEL_LABEL_RE t \<longrightarrow> phones = [])
      \<and> (\<not> occurs EMAIL_BREAK_RE t \<longrightarrow> emails = [])"
proof -
  have "\<forall>m \<in> set (finditer TEL_LABEL_RE t). group t m 1 \<noteq> None"
    unfolding finditer_def
    using finditer_from_matches match_at_group [OF sets_TEL_LABEL_RE] by blast
  then obtain found where found: "phones_loop t (finditer TEL_LABEL_RE t) [] = Inr found"
    using phones_loop_total by blast
  have res: "extract_contacts_from_block t = Inr (dedup_preserve_order found, normalize_emails t)"
    by (simp add: extract_contacts_from_block_def found)
  have "dedup_preserve_order found = []" if "\<not> occurs TEL_LABEL_RE t"
  proof -
    have "finditer TEL_LABEL_RE t = []" using that by (rule finditer_none)
    then have "found = []" using found by simp
    then show ?thesis by (simp add: dedup_preserve_order_def)
  qed
  moreover have "normalize_emails t = []" if "\<not> occurs EMAIL_BREAK_RE t"
    using finditer_none [OF that] by (simp add: normalize_emails_def dedup_preserve_order_def)
  ultimately show ?thesis using res by blast
qed

section \<open>What the company-suffix pattern matches\<close>

lemma sub_at_Cons:
  "sub_at s i (ch # w) = (i < length s \<and> s ! i = ch \<and> sub_at s (Suc i) w)"
proof -
  have "(\<forall>j < Suc (length w). s ! (i + j) = (ch # w) ! j)
          = (s ! i = ch \<and> (\<forall>j < length w. s ! (Suc i + j) = w ! j))"
    by (auto simp: less_Suc_eq_0_disj)
  then show ?thesis by (auto simp: sub_at_def)
qed

lemma sub_at_Nil: "sub_at s i [] = (i \<le> length s)"
  by (simp add: sub_at_def)

lemma rmatch_lit_ci:
  "i \<le> length s \<Longrightarrow>
   rmatch (lit_ci w) s k (i, c) = (if ci_at s i w then k (i + length w, c) else None)"
proof (induction w arbitrary: i)
  case Nil
  then show ?case by (simp add: lit_ci_def ci_at_def sub_at_Nil lower_def)
next
  case (Cons ch w)
  have step: "lit_ci (ch # w) = Seq (Cls (\<lambda>x. lower_char x = lower_char ch)) (lit_ci w)"
    by (simp add: lit_ci_def)
  show ?case
  proof (cases "i < length s \<and> lower_char (s ! i) = lower_char ch")
    case True
    then have "Suc i \<le> length s" by simp
    then have "rmatch (lit_ci w) s k (Suc i, c)
                 = (if ci_at s (Suc i) w then k (Suc i + length w, c) else None)"
      by (rule Cons.IH)
    then show ?thesis using True by (simp add: step ci_at_def lower_def sub_at_Cons)
  next
    case False
    then show ?thesis by (auto simp: step ci_at_def lower_def sub_at_Cons)
  qed
qed

lemma match_at_CO_TAIL_RE:
  "i \<le> length s \<Longrightarrow> (match_at CO_TAIL_RE s i \<noteq> None) = tail_at s i"
  by (simp add: match_at_def CO_TAIL_RE_def seqs_def rmatch_lit_ci tail_at_def
      split: option.splits)

lemma first_match_Some:
  "(first_match r s ps \<noteq> None) = (\<exists>i \<in> set ps. match_at r s i \<noteq> None)"
  by (induction ps) (auto split: option.splits)

lemma upto_mem: "(i \<in> set [0 ..< Suc n]) = (i \<le> n)"
  by (simp only: set_upt atLeastLessThan_iff less_Suc_eq_le) simp

lemma has_tail_iff: "has_tail s = (\<exists>i \<le> length s. tail_at s i)"
proof -
  have "has_tail s = (\<exists>i \<in> set [0 ..< Suc (length s)]. match_at CO_TAIL_RE s i \<noteq> None)"
    unfolding has_tail_def search_def by (rule first_match_Some)
  also have "\<dots> = (\<exists>i \<le> length s. match_at CO_TAIL_RE s i \<noteq> None)"
    by (simp only: Bex_def upto_mem)
  also have "\<dots> = (\<exists>i \<le> length s. tail_at s i)"
    using match_at_CO_TAIL_RE by blast
  finally show ?thesis .
qed


section \<open>White space around a text\<close>

lemma is_space_not_word: "is_space c \<Longrightarrow> \<not> is_word c"
  by (auto simp: is_space_def is_word_def is_alpha_def is_upper_def is_lower_def is_digit_def Let_def)

lemma code_char_of: "code (char_of (n :: int)) = n mod 256"
  by (simp add: code_def)

lemma is_space_lower_char: "is_space (lower_char x) = is_space x"
proof -
  have "is_space (char_of (code x + 32)) = is_space x"
    if "(65 \<le> code x \<and> code x \<le> 90) \<or> (192 \<le> code x \<and> code x \<le> 222 \<and> code x \<noteq> 215)"
  proof -
    have "(code x + 32) mod 256 = code x + 32" using that by auto
    then show ?thesis using that by (auto simp: is_space_def code_char_of Let_def)
  qed
  then show ?thesis by (auto simp: lower_char_def Let_def)
qed


lemma strip_padding:
  "\<exists>a b. s = a @ strip s @ b \<and> list_all is_space a \<and> list_all is_space b"
proof -
  let ?d = "dropWhile is_space s"
  let ?a = "takeWhile is_space s"
  let ?b = "rev (takeWhile is_space (rev ?d))"
  have "rev (takeWhile is_space (rev ?d) @ dropWhile is_space (rev ?d)) = rev (rev ?d)"
    by (simp only: takeWhile_dropWhile_id)
  then have "rev (dropWhile is_space (rev ?d)) @ ?b = ?d"
    by (simp only: rev_append rev_rev_ident)
  then have "?d = strip s @ ?b" by (simp only: strip_def)
  moreover have "s = ?a @ ?d" by simp
  ultimately have "s = ?a @ strip s @ ?b" by simp
  moreover have "list_all is_space ?a"
    by (simp add: list_all_iff) (meson set_takeWhileD)
  moreover have "list_all is_space ?b"
    by (simp add: list_all_iff) (meson set_takeWhileD)
  ultimately show ?thesis by blast
qed

lemma nth_padded:
  "q < length t \<Longrightarrow> (a @ t @ b) ! (length a + q) = t ! q"
  by (simp add: nth_append)

lemma sub_at_padded:
  assumes a: "list_all is_space a" and b: "list_all is_space b"
    and w: "w \<noteq> []" "\<not> is_space (hd w)" "\<not> is_space (last w)"
  shows "sub_at (a @ t @ b) j w = (\<exists>i. j = length a + i \<and> sub_at t i w)"
proof
  assume m: "sub_at (a @ t @ b) j w"
  then have len: "j + length w \<le> length a + length t + length b"
    and eq: "\<forall>k < length w. (a @ t @ b) ! (j + k) = w ! k"
    by (simp_all add: sub_at_def)
  have first: "(a @ t @ b) ! j = hd w"
    using eq w(1) by (metis add.right_neutral hd_conv_nth length_greater_0_conv)
  have ja: "length a \<le> j"
  proof (rule ccontr)
    assume "\<not> length a \<le> j"
    then have "(a @ t @ b) ! j = a ! j" "j < length a" by (simp_all add: nth_append)
    then have "is_space (hd w)" using first a by (metis list_all_length)
    then show False using w(2) by simp
  qed
  then obtain i where i: "j = length a + i" using le_Suc_ex by blast
  obtain n where n: "length w = Suc n" using w(1) by (cases w) auto
  have lastw: "(a @ t @ b) ! (j + n) = last w"
    using eq w(1) n by (simp add: last_conv_nth)
  have it: "i + length w \<le> length t"
  proof (rule ccontr)
    assume "\<not> i + length w \<le> length t"
    then obtain q where q: "i + n = length t + q" using n le_Suc_ex [of "length t" "i + n"] by auto
    have qb: "q < length b" using len i n q by linarith
    have "(a @ t @ b) ! (j + n) = (a @ t @ b) ! (length a + length t + q)"
      using i q by (simp add: add.assoc)
    also have "\<dots> = b ! q"
      by (metis append.assoc length_append nth_append_length_plus)
    finally have "is_space (last w)" using lastw b qb by (metis list_all_length)
    then show False using w(3) by simp
  qed
  have "t ! (i + k) = w ! k" if "k < length w" for k
  proof -
    have "(a @ t @ b) ! (length a + (i + k)) = t ! (i + k)"
      using it that by (intro nth_padded) linarith
    then show ?thesis using eq that i by (simp add: add.assoc)
  qed
  then have "sub_at t i w" using it by (simp add: sub_at_def)
  then show "\<exists>i. j = length a + i \<and> sub_at t i w" using i by blast
next
  assume "\<exists>i. j = length a + i \<and> sub_at t i w"
  then obtain i where i: "j = length a + i" and len: "i + length w \<le> length t"
    and eq: "\<forall>k < length w. t ! (i + k) = w ! k"
    by (auto simp: sub_at_def)
  have "(a @ t @ b) ! (j + k) = w ! k" if "k < length w" for k
  proof -
    have "(a @ t @ b) ! (length a + (i + k)) = t ! (i + k)"
      using len that by (intro nth_padded) linarith
    then show ?thesis using eq that i by (simp add: add.assoc)
  qed
  then show "sub_at (a @ t @ b) j w" using i len by (simp add: sub_at_def)
qed


lemma word_at_padded:
  assumes a: "list_all is_space a" and b: "list_all is_space b" and i: "i \<le> length t"
  shows "word_at (a @ t @ b) (length a + i) = word_at t i"
proof (cases "i < length t")
  case True
  then have n: "(a @ t @ b) ! (length a + i) = t ! i" by (rule nth_padded)
  have "length a + i < length (a @ t @ b)" using True by simp
  then show ?thesis unfolding word_at_def n using True by simp
next
  case False
  then have it: "i = length t" using i by simp
  have "\<not> word_at (a @ t @ b) (length a + length t)"
  proof (cases b)
    case Nil
    then show ?thesis by (simp add: word_at_def)
  next
    case (Cons c cs)
    have "(a @ t @ b) ! (length a + length t) = c"
      using Cons by (metis append.assoc length_append nth_append_length)
    moreover have "is_space c" using b Cons by simp
    ultimately show ?thesis using is_space_not_word by (simp add: word_at_def)
  qed
  then show ?thesis using it by (simp add: word_at_def)
qed

lemma boundary_padded:
  assumes a: "list_all is_space a" and b: "list_all is_space b" and i: "i \<le> length t"
  shows "boundary (a @ t @ b) (length a + i) = boundary t i"
proof -
  have before: "(0 < length a + i \<and> word_at (a @ t @ b) (length a + i - 1))
                  = (0 < i \<and> word_at t (i - 1))"
  proof (cases i)
    case 0
    have "\<not> word_at (a @ t @ b) (length a - 1)" if "0 < length a"
    proof -
      have "(a @ t @ b) ! (length a - 1) = a ! (length a - 1)" using that by (simp add: nth_append)
      moreover have "is_space (a ! (length a - 1))" using a that by (simp add: list_all_length)
      ultimately show ?thesis using is_space_not_word by (simp add: word_at_def)
    qed
    then show ?thesis using 0 by auto
  next
    case (Suc k)
    then have "k \<le> length t" using i by simp
    then have "word_at (a @ t @ b) (length a + k) = word_at t k"
      using a b by (intro word_at_padded)
    then show ?thesis using Suc by simp
  qed
  have "word_at (a @ t @ b) (length a + i) = word_at t i"
    using a b i by (rule word_at_padded)
  then show ?thesis using before by (simp only: boundary_def)
qed

lemma ci_at_padded:
  assumes a: "list_all is_space a" and b: "list_all is_space b"
    and w: "w \<noteq> []" "\<not> is_space (hd w)" "\<not> is_space (last w)"
  shows "ci_at (a @ t @ b) j w = (\<exists>i. j = length a + i \<and> ci_at t i w)"
proof -
  have la: "list_all is_space (lower a)" and lb: "list_all is_space (lower b)"
    using a b by (simp_all add: lower_def list_all_iff is_space_lower_char)
  have lw: "lower w \<noteq> []" "\<not> is_space (hd (lower w))" "\<not> is_space (last (lower w))"
    using w by (simp_all add: lower_def hd_map last_map is_space_lower_char)
  have "sub_at (lower a @ lower t @ lower b) j (lower w)
          = (\<exists>i. j = length (lower a) + i \<and> sub_at (lower t) i (lower w))"
    using la lb lw by (rule sub_at_padded)
  then show ?thesis by (simp add: ci_at_def lower_def)
qed

lemma ci_at_length: "ci_at s i w \<Longrightarrow> i + length w \<le> length s"
  by (simp add: ci_at_def sub_at_def lower_def)

lemma tail_at_padded:
  assumes a: "list_all is_space a" and b: "list_all is_space b"
  shows "tail_at (a @ t @ b) j = (\<exists>i. j = length a + i \<and> tail_at t i)"
proof -
  have one: "(ci_at (a @ t @ b) j w \<and> boundary (a @ t @ b) j \<and> boundary (a @ t @ b) (j + length w))
               = (\<exists>i. j = length a + i \<and> ci_at t i w \<and> boundary t i \<and> boundary t (i + length w))"
    if w: "w \<noteq> []" "\<not> is_space (hd w)" "\<not> is_space (last w)" for w
  proof
    assume l: "ci_at (a @ t @ b) j w \<and> boundary (a @ t @ b) j \<and> boundary (a @ t @ b) (j + length w)"
    then obtain i where i: "j = length a + i" "ci_at t i w"
      using ci_at_padded [OF a b w] by blast
    then have len: "i + length w \<le> length t" by (intro ci_at_length)
    then have il: "i \<le> length t" by linarith
    have "boundary (a @ t @ b) (length a + i) = boundary t i"
      using a b il by (rule boundary_padded)
    moreover have "boundary (a @ t @ b) (length a + (i + length w)) = boundary t (i + length w)"
      using a b len by (intro boundary_padded)
    ultimately show "\<exists>i. j = length a + i \<and> ci_at t i w \<and> boundary t i \<and> boundary t (i + length w)"
      using l i by (auto simp: add.assoc)
  next
    assume "\<exists>i. j = length a + i \<and> ci_at t i w \<and> boundary t i \<and> boundary t (i + length w)"
    then obtain i where i: "j = length a + i" "ci_at t i w" "boundary t i" "boundary t (i + length w)"
      by blast
    then have len: "i + length w \<le> length t" by (intro ci_at_length)
    then have il: "i \<le> length t" by linarith
    have "boundary (a @ t @ b) (length a + i) = boundary t i"
      using a b il by (rule boundary_padded)
    moreover have "boundary (a @ t @ b) (length a + (i + length w)) = boundary t (i + length w)"
      using a b len by (intro boundary_padded)
    moreover have "ci_at (a @ t @ b) j w" using ci_at_padded [OF a b w] i by blast
    ultimately show "ci_at (a @ t @ b) j w \<and> boundary (a @ t @ b) j \<and> boundary (a @ t @ b) (j + length w)"
      using i by (simp add: add.assoc)
  qed
  have sp: "\<not> is_space CHR ''S''" "\<not> is_space CHR ''B''" "\<not> is_space CHR ''D''"
    by (simp_all add: is_space_def code_def)
  have 1: "(ci_at (a @ t @ b) j ''SDN BHD'' \<and> boundary (a @ t @ b) j \<and> boundary (a @ t @ b) (j + length ''SDN BHD''))
               = (\<exists>i. j = length a + i \<and> ci_at t i ''SDN BHD'' \<and> boundary t i \<and> boundary t (i + length ''SDN BHD''))"
    by (rule one) (simp_all add: sp)
  have 2: "(ci_at (a @ t @ b) j ''BHD'' \<and> boundary (a @ t @ b) j \<and> boundary (a @ t @ b) (j + length ''BHD''))
               = (\<exists>i. j = length a + i \<and> ci_at t i ''BHD'' \<and> boundary t i \<and> boundary t (i + length ''BHD''))"
    by (rule one) (simp_all add: sp)
  have 3: "(ci_at (a @ t @ b) j ''BERHAD'' \<and> boundary (a @ t @ b) j \<and> boundary (a @ t @ b) (j + length ''BERHAD''))
               = (\<exists>i. j = length a + i \<and> ci_at t i ''BERHAD'' \<and> boundary t i \<and> boundary t (i + length ''BERHAD''))"
    by (rule one) (simp_all add: sp)
  have "tail_at (a @ t @ b) j =
          ((ci_at (a @ t @ b) j ''SDN BHD'' \<and> boundary (a @ t @ b) j \<and> boundary (a @ t @ b) (j + length ''SDN BHD''))
         \<or> (ci_at (a @ t @ b) j ''BHD'' \<and> boundary (a @ t @ b) j \<and> boundary (a @ t @ b) (j + length ''BHD''))
         \<or> (ci_at (a @ t @ b) j ''BERHAD'' \<and> boundary (a @ t @ b) j \<and> boundary (a @ t @ b) (j + length ''BERHAD'')))"
    unfolding tail_at_def list_ex_Nil_iff list_ex_Cons_iff by blast
  also have "\<dots> = (\<exists>i. j = length a + i \<and>
          ((ci_at t i ''SDN BHD'' \<and> boundary t i \<and> boundary t (i + length ''SDN BHD''))
         \<or> (ci_at t i ''BHD'' \<and> boundary t i \<and> boundary t (i + length ''BHD''))
         \<or> (ci_at t i ''BERHAD'' \<and> boundary t i \<and> boundary t (i + length ''BERHAD''))))"
    unfolding 1 2 3 by blast
  also have "\<dots> = (\<exists>i. j = length a + i \<and> tail_at t i)"
    unfolding tail_at_def list_ex_Nil_iff list_ex_Cons_iff by blast
  finally show ?thesis .
qed

lemma tail_at_length: "tail_at t i \<Longrightarrow> i \<le> length t"
  unfolding tail_at_def list_ex_Nil_iff list_ex_Cons_iff using ci_at_length by fastforce

lemma has_tail_padded:
  assumes a: "list_all is_space a" and b: "list_all is_space b"
  shows "has_tail (a @ t @ b) = has_tail t"
proof
  assume "has_tail (a @ t @ b)"
  then obtain j where "tail_at (a @ t @ b) j" by (auto simp: has_tail_iff)
  then obtain i where "tail_at t i" using tail_at_padded [OF a b] by blast
  then show "has_tail t" using tail_at_length has_tail_iff by blast
next
  assume "has_tail t"
  then obtain i where "tail_at t i" by (auto simp: has_tail_iff)
  then have "tail_at (a @ t @ b) (length a + i)" using tail_at_padded [OF a b] by blast
  then show "has_tail (a @ t @ b)" using tail_at_length has_tail_iff by blast
qed

lemma has_tail_strip: "has_tail (strip s) = has_tail s"
proof -
  obtain a b where "s = a @ strip s @ b" "list_all is_space a" "list_all is_space b"
    using strip_padding by blast
  then show ?thesis using has_tail_padded [of a b "strip s"] by simp
qed


lemma startswith_sub_at: "startswith s p = sub_at s 0 p"
proof
  assume "startswith s p"
  then have p: "take (length p) s = p" by (simp add: startswith_def)
  then have "length (take (length p) s) = length p" by (rule arg_cong)
  then have len: "length p \<le> length s" by simp
  have "s ! j = p ! j" if "j < length p" for j
    using p that by (metis nth_take)
  then show "sub_at s 0 p" using len by (simp add: sub_at_def)
next
  assume "sub_at s 0 p"
  then have "length p \<le> length s" "\<forall>j < length p. s ! j = p ! j"
    by (simp_all add: sub_at_def)
  then have "take (length p) s = p"
    by (intro nth_equalityI) simp_all
  then show "startswith s p" by (simp add: startswith_def)
qed

lemma sub_at_Cons_Suc: "sub_at (c # cs) (Suc i) w = sub_at cs i w"
  by (simp add: sub_at_def)

lemma contains_iff: "contains s sub = (\<exists>i. sub_at s i sub)"
proof (induction s)
  case Nil
  show ?case by (auto simp: sub_at_def)
next
  case (Cons c cs)
  have "(\<exists>i. sub_at (c # cs) i sub) = (sub_at (c # cs) 0 sub \<or> (\<exists>i. sub_at (c # cs) (Suc i) sub))"
    by (metis not0_implies_Suc)
  then show ?case using Cons by (simp add: startswith_sub_at sub_at_Cons_Suc)
qed





lemma contains_strip_literal: "contains (strip s) CO_NO_LITERAL = contains s CO_NO_LITERAL"
proof -
  obtain a b where s: "s = a @ strip s @ b" and a: "list_all is_space a" and b: "list_all is_space b"
    using strip_padding by blast
  have w: "CO_NO_LITERAL \<noteq> []" "\<not> is_space (hd CO_NO_LITERAL)" "\<not> is_space (last CO_NO_LITERAL)"
    by (simp_all add: CO_NO_LITERAL_def is_space_def code_def)
  have "(\<exists>j. sub_at (a @ strip s @ b) j CO_NO_LITERAL) = (\<exists>i. sub_at (strip s) i CO_NO_LITERAL)"
    using sub_at_padded [OF a b w] by blast
  then show ?thesis using s by (simp add: contains_iff)
qed


section \<open>The registration-number annotation\<close>

















section \<open>Runs of bold spans\<close>

lemma scan_append: "scan i (xs @ ys) st = scan (i + length xs) ys (scan i xs st)"
  by (induction xs arbitrary: i st) simp_all

lemma flush_results: "results (flush_if_company st) = results st @ emitted (buf st) (last_idx st)"
  by (simp add: flush_if_company_def emitted_def Let_def)

lemma flush_closed: "open_inv st \<Longrightarrow> last_idx (flush_if_company st) = None"
  by (simp add: flush_if_company_def open_inv_def Let_def)

lemma step_accepted:
  "accepted sp \<Longrightarrow>
   step i sp st =
     (if triggers (buf st @ [span_text sp])
      then flush_if_company (st\<lparr>buf := buf st @ [span_text sp], last_idx := Some i\<rparr>)
      else st\<lparr>buf := buf st @ [span_text sp], last_idx := Some i\<rparr>)"
  by (simp add: step_def accepted_def triggers_def Let_def)

lemma step_not_accepted: "\<not> accepted sp \<Longrightarrow> step i sp st = flush_if_company st"
  by (auto simp: step_def accepted_def Let_def)

lemma step_open_inv: "open_inv st \<Longrightarrow> open_inv (step i sp st)"
proof (cases "accepted sp")
  case False
  assume "open_inv st"
  then show ?thesis using False flush_closed [of st] by (simp add: step_not_accepted open_inv_def)
next
  case True
  assume "open_inv st"
  let ?st = "st\<lparr>buf := buf st @ [span_text sp], last_idx := Some i\<rparr>"
  show ?thesis
  proof (cases "triggers (buf st @ [span_text sp])")
    case True
    have "last_idx (flush_if_company ?st) = None"
      by (simp add: flush_if_company_def Let_def)
    then show ?thesis using True \<open>accepted sp\<close> by (simp add: step_accepted open_inv_def)
  next
    case False
    then show ?thesis using \<open>accepted sp\<close> by (simp add: step_accepted open_inv_def triggers_def)
  qed
qed

lemma scan_open_inv: "open_inv st \<Longrightarrow> open_inv (scan i xs st)"
  by (induction xs arbitrary: i st) (simp_all add: step_open_inv)

lemma scanned_open_inv: "open_inv (scanned spans)"
  unfolding scanned_def by (rule scan_open_inv) (simp add: open_inv_def)











text \<open>
  Claim C3, as amended.  A bold span whose text starts with a rejection prefix is not
  added to the buffer, which is empty after it, and it is the terminating span of no
  header.  The buffer that is open at that point is flushed by the common rule: it is
  discarded, nothing being recorded, unless its joined text contains \<^verbatim>\<open>(Co. No.\<close>.
\<close>

theorem rejected_span_no_header:
  assumes "is_bold sp" and "rejected (span_text sp)"
  shows "buf (scanned (pre @ [sp])) = [] \<and> last_idx (scanned (pre @ [sp])) = None
       \<and> results (scanned (pre @ [sp]))
           = results (scanned pre) @ emitted (buf (scanned pre)) (last_idx (scanned pre))
       \<and> (\<not> contains (join '' '' (buf (scanned pre))) CO_NO_LITERAL
            \<longrightarrow> results (scanned (pre @ [sp])) = results (scanned pre))
       \<and> (\<forall>h \<in> set (extract_headers_from_bold (pre @ sp # post)). snd h \<noteq> Some (length pre))"
proof -
  have na: "\<not> accepted sp" using assms by (simp add: accepted_def)
  have st: "scanned (pre @ [sp]) = flush_if_company (scanned pre)"
    using na by (simp add: scanned_def scan_append step_not_accepted)
  have inv: "open_inv (scanned pre)" by (rule scanned_open_inv)
  have a: "buf (scanned (pre @ [sp])) = []" by (simp add: st)
  have b: "last_idx (scanned (pre @ [sp])) = None" using inv by (simp add: st flush_closed)
  have c: "results (scanned (pre @ [sp]))
           = results (scanned pre) @ emitted (buf (scanned pre)) (last_idx (scanned pre))"
    by (simp add: st flush_results)
  have d: "results (scanned (pre @ [sp])) = results (scanned pre)"
    if "\<not> contains (join '' '' (buf (scanned pre))) CO_NO_LITERAL"
  proof -
    have "\<not> has_tail (strip (join '' '' (buf (scanned pre))))" if "buf (scanned pre) \<noteq> []"
      using inv that by (simp add: open_inv_def has_tail_strip)
    moreover have "\<not> contains (strip (join '' '' (buf (scanned pre)))) CO_NO_LITERAL"
      using \<open>\<not> contains (join '' '' (buf (scanned pre))) CO_NO_LITERAL\<close>
      by (simp add: contains_strip_literal)
    ultimately have "emitted (buf (scanned pre)) (last_idx (scanned pre)) = []"
      by (auto simp: emitted_def Let_def)
    then show ?thesis using c by simp
  qed
  have e: "snd h \<noteq> Some (length pre)" if "h \<in> set (extract_headers_from_bold (pre @ sp # post))" for h
  proof
    assume h: "snd h = Some (length pre)"
    have "h \<in> set (candidates (pre @ sp # post))" using that extract_headers_subset by blast
    then have "good_header (\<lambda>e. e < length (pre @ sp # post) \<and> accepted ((pre @ sp # post) ! e)) h"
      using candidates_good [of "pre @ sp # post"] by (simp add: list_all_iff)
    then have "accepted ((pre @ sp # post) ! length pre)" using h by (simp add: good_header_def)
    then show False using na by simp
  qed
  show ?thesis using a b c d e by blast
qed

section \<open>The order of the headers, and headers of the same name\<close>

lemma ends_before_mono: "ends_before n h \<Longrightarrow> n \<le> m \<Longrightarrow> ends_before m h"
  by (auto simp: ends_before_def split: option.splits)

lemma idx_inv_mono: "idx_inv i st \<Longrightarrow> i \<le> j \<Longrightarrow> idx_inv j st"
  by (auto simp: idx_inv_def list_all_iff split: option.splits intro: ends_before_mono)

lemma emitted_cases: "emitted b idx = [] \<or> (b \<noteq> [] \<and> (\<exists>n. emitted b idx = [(n, idx)]))"
  by (simp add: emitted_def Let_def)

lemma flush_unchanged: "buf st = [] \<Longrightarrow> flush_if_company st = st"
  by (simp add: flush_if_company_def)

lemma flush_idx_inv: "idx_inv i st \<Longrightarrow> idx_inv i (flush_if_company st)"
proof (cases "buf st = []")
  case True
  assume "idx_inv i st"
  then show ?thesis using True by (simp add: flush_unchanged)
next
  case False
  assume inv: "idx_inv i st"
  then obtain l where l: "last_idx st = Some l" "l < i" "list_all (ends_before l) (results st)"
    and s: "sorted_wrt before (results st)" and e: "list_all (ends_before i) (results st)"
    using False by (auto simp: idx_inv_def split: option.splits)
  consider "emitted (buf st) (last_idx st) = []"
    | n where "emitted (buf st) (last_idx st) = [(n, Some l)]"
    using emitted_cases [of "buf st" "last_idx st"] l(1) by auto
  then show ?thesis
  proof cases
    case 1
    then show ?thesis using s e by (simp add: idx_inv_def flush_results)
  next
    case 2
    have "sorted_wrt before (results st @ [(n, Some l)])"
      using s l(3) by (auto simp: sorted_wrt_append before_def list_all_iff)
    moreover have "list_all (ends_before i) (results st @ [(n, Some l)])"
      using e l(2) by (simp add: ends_before_def)
    ultimately show ?thesis using 2 by (simp add: idx_inv_def flush_results)
  qed
qed

lemma step_idx_inv: "idx_inv i st \<Longrightarrow> idx_inv (Suc i) (step i sp st)"
proof (cases "accepted sp")
  case False
  assume "idx_inv i st"
  then have "idx_inv i (flush_if_company st)" by (rule flush_idx_inv)
  then show ?thesis using False by (simp add: step_not_accepted idx_inv_mono)
next
  case True
  assume inv: "idx_inv i st"
  let ?st = "st\<lparr>buf := buf st @ [span_text sp], last_idx := Some i\<rparr>"
  have "idx_inv (Suc i) ?st"
    using inv by (auto simp: idx_inv_def list_all_iff intro: ends_before_mono)
  then show ?thesis using True by (auto simp: step_accepted intro: flush_idx_inv)
qed

lemma scan_idx_inv: "idx_inv i st \<Longrightarrow> idx_inv (i + length xs) (scan i xs st)"
proof (induction xs arbitrary: i st)
  case Nil
  then show ?case by simp
next
  case (Cons x xs)
  have "idx_inv (Suc i) (step i x st)" using Cons.prems by (rule step_idx_inv)
  then have "idx_inv (Suc i + length xs) (scan (Suc i) xs (step i x st))" by (rule Cons.IH)
  then show ?case by simp
qed

lemma candidates_sorted: "sorted_wrt before (candidates spans)"
proof -
  have "idx_inv 0 \<lparr>results = [], buf = [], last_idx = None\<rparr>" by (simp add: idx_inv_def)
  then have "idx_inv (0 + length spans) (scanned spans)"
    unfolding scanned_def by (rule scan_idx_inv)
  then have "idx_inv (0 + length spans) (flush_if_company (scanned spans))" by (rule flush_idx_inv)
  then show ?thesis by (simp add: idx_inv_def candidates_def)
qed

lemma unique_loop_sorted:
  "sorted_wrt R rs \<Longrightarrow> sorted_wrt R (unique_loop rs seen [])"
proof (induction rs arbitrary: seen)
  case Nil
  show ?case by simp
next
  case (Cons r rs)
  obtain name idx where r: "r = (name, idx)" by (cases r)
  have s: "sorted_wrt R rs" and all: "\<forall>h \<in> set rs. R r h" using Cons.prems by simp_all
  have "\<forall>h \<in> set (unique_loop rs (insert name seen) []). R r h"
    using all unique_loop_set [of rs "insert name seen"] by blast
  then show ?case
    using Cons.IH [OF s, of seen] Cons.IH [OF s, of "insert name seen"]
    by (simp add: r unique_loop_Cons del: unique_loop.simps)
qed

lemma extract_headers_sorted: "sorted_wrt before (extract_headers_from_bold spans)"
  unfolding extract_headers_from_bold_def using candidates_sorted by (rule unique_loop_sorted)

lemma before_idx: "before h h' \<Longrightarrow> \<exists>e e'. snd h = Some e \<and> snd h' = Some e' \<and> e < e'"
  by (auto simp: before_def ends_before_def split: option.splits)


text \<open>
  Claim C4, as amended.  If the span sequence yields two header candidates with the same
  cleaned company name at different positions, the terminating span of the first
  candidate of that name comes before that of the duplicate; exactly one header of that
  name is returned, that first candidate, no returned header has the terminating span
  of the duplicate, and the names of the returned headers are pairwise different; the
  block slicer returns one block per returned header, so exactly one block of that name.
  The range of every block starts on the line after the terminating line of its header
  and stops on the line before the terminating line of the next returned header, or on
  the last line of the page (on its own start line where that would be earlier).  On a
  page whose span line numbers do not decrease and are less than the number of its
  lines: if no
  header is returned whose terminating span lies between those of the first occurrence
  and of the duplicate, the range of the first occurrence's block contains every line
  strictly between the terminating lines of the first occurrence and of the duplicate;
  and for every header that is returned with its terminating span between those two, the
  range of the first occurrence's block stops on the line before the terminating line of
  that header at the latest, or on its own start line.
\<close>

theorem duplicate_header_first_wins:
  assumes ab: "a < b" "b < length (candidates spans)"
    and na: "fst (candidates spans ! a) = name" and nb: "fst (candidates spans ! b) = name"
  shows "\<exists>first ea eb k blocks ranges.
           find (\<lambda>h. fst h = name) (candidates spans) = Some first
         \<and> snd first = Some ea \<and> snd (candidates spans ! b) = Some eb
         \<and> ea < eb \<and> eb < length spans
         \<and> filter (\<lambda>h. fst h = name) (extract_headers_from_bold spans) = [first]
         \<and> (\<forall>h \<in> set (extract_headers_from_bold spans). snd h \<noteq> Some eb)
         \<and> distinct (map fst (extract_headers_from_bold spans))
         \<and> slice_company_blocks (extract_headers_from_bold spans) spans lines = Inr blocks
         \<and> line_ranges spans lines (extract_headers_from_bold spans) = Inr ranges
         \<and> map fst blocks = map fst (extract_headers_from_bold spans)
         \<and> length (filter (\<lambda>b. fst b = name) blocks) = 1
         \<and> k < length (extract_headers_from_bold spans)
         \<and> extract_headers_from_bold spans ! k = first
         \<and> (\<forall>i < length (extract_headers_from_bold spans).
               ranges ! i =
                 (term_line spans (extract_headers_from_bold spans ! i) + 1,
                  max (term_line spans (extract_headers_from_bold spans ! i) + 1)
                      (if Suc i < length (extract_headers_from_bold spans)
                       then term_line spans (extract_headers_from_bold spans ! Suc i) - 1
                       else int (length lines) - 1))
             \<and> snd (blocks ! i) = block_text lines (fst (ranges ! i)) (snd (ranges ! i)))
         \<and> (sorted (map line_no spans)
              \<and> list_all (\<lambda>sp. line_no sp < int (length lines)) spans
              \<longrightarrow> ((\<forall>h \<in> set (extract_headers_from_bold spans).
                      case snd h of None \<Rightarrow> True | Some e \<Rightarrow> \<not> (ea < e \<and> e < eb))
                   \<longrightarrow> (\<forall>l. line_no (spans ! ea) < l \<and> l < line_no (spans ! eb)
                            \<longrightarrow> fst (ranges ! k) \<le> l \<and> l \<le> snd (ranges ! k)))
                \<and> (\<forall>h \<in> set (extract_headers_from_bold spans).
                      case snd h of None \<Rightarrow> True
                      | Some e \<Rightarrow> ea < e \<and> e < eb
                          \<longrightarrow> snd (ranges ! k)
                                \<le> max (line_no (spans ! ea) + 1) (line_no (spans ! e) - 1)))"
proof -
  let ?cs = "candidates spans"
  let ?hs = "extract_headers_from_bold spans"
  let ?P = "\<lambda>h. fst h = name"
  have sorted_cs: "sorted_wrt before ?cs" by (rule candidates_sorted)
  have sorted_hs: "sorted_wrt before ?hs" by (rule extract_headers_sorted)
  obtain first where first: "find ?P ?cs = Some first"
    using find_nth_Some [of a ?cs ?P] ab na by auto
  then obtain k0 where k0: "k0 < length ?cs" "?cs ! k0 = first" "\<forall>j < k0. \<not> ?P (?cs ! j)"
    unfolding find_Some_iff by blast
  have "k0 \<le> a"
  proof (rule ccontr)
    assume "\<not> k0 \<le> a"
    then have "a < k0" by simp
    then have "\<not> ?P (?cs ! a)" using k0(3) by blast
    then show False using na by simp
  qed
  then have "k0 < b" using ab by simp
  then have "before first (?cs ! b)"
    using sorted_cs k0(2) ab(2) sorted_wrt_iff_nth_less [of before ?cs] by blast
  then obtain ea eb where ea: "snd first = Some ea" and eb: "snd (?cs ! b) = Some eb"
    and lt: "ea < eb"
    using before_idx by blast
  have "good_header (\<lambda>e. e < length spans \<and> accepted (spans ! e)) (?cs ! b)"
    using candidates_good [of spans] ab(2) by (simp add: list_all_length)
  then have ebl: "eb < length spans" using eb by (simp add: good_header_def)
  have "find ?P ?hs = Some first"
    using first by (simp add: extract_headers_from_bold_def unique_loop_find)
  then have one: "filter ?P ?hs = [first]"
    using extract_headers_distinct by (rule find_filter_distinct [rotated])
  have nodup: "snd h \<noteq> Some eb" if h: "h \<in> set ?hs" for h
  proof
    assume e: "snd h = Some eb"
    have "h \<in> set ?cs" using h extract_headers_subset by blast
    then obtain j where j: "j < length ?cs" "?cs ! j = h" by (auto simp: in_set_conv_nth)
    have "j = b"
    proof (rule ccontr)
      assume "j \<noteq> b"
      then consider "j < b" | "b < j" by linarith
      then show False
      proof cases
        case 1
        then have "before (?cs ! j) (?cs ! b)"
          using sorted_cs ab(2) sorted_wrt_iff_nth_less [of before ?cs] by blast
        then show False using before_idx [of "?cs ! j" "?cs ! b"] j(2) e eb by auto
      next
        case 2
        then have "before (?cs ! b) (?cs ! j)"
          using sorted_cs j(1) sorted_wrt_iff_nth_less [of before ?cs] by blast
        then show False using before_idx [of "?cs ! b" "?cs ! j"] j(2) e eb by auto
      qed
    qed
    then have "?P h" using j(2) nb by simp
    then have "h \<in> set (filter ?P ?hs)" using h by simp
    then have "h = first" using one by simp
    then show False using e ea lt by simp
  qed
  have "first \<in> set (filter ?P ?hs)" using one by simp
  then have "first \<in> set ?hs" by simp
  then obtain k where k: "k < length ?hs" "?hs ! k = first" by (auto simp: in_set_conv_nth)
  have valid: "list_all (valid_header spans) ?hs" by (rule extract_headers_valid)
  obtain ranges where lr: "line_ranges spans lines ?hs = Inr ranges"
    and len: "length ranges = length ?hs"
    and nth: "\<forall>i < length ?hs. ranges ! i =
           (term_line spans (?hs ! i) + 1,
            max (term_line spans (?hs ! i) + 1)
                (if Suc i < length ?hs then term_line spans (?hs ! Suc i) - 1
                 else int (length lines) - 1))"
    using line_ranges_valid [OF valid, of lines] by blast
  define blocks where
    "blocks = map (\<lambda>(h, r). (fst h, block_text lines (fst r) (snd r))) (zip ?hs ranges)"
  have sl: "slice_company_blocks ?hs spans lines = Inr blocks"
    by (simp add: slice_company_blocks_def slice_loop_ranges lr blocks_def)
  have names: "map fst blocks = map fst ?hs"
    by (rule nth_equalityI) (simp_all add: blocks_def len)
  have "length (filter (\<lambda>b. fst b = name) blocks) = length (filter ?P ?hs)"
    by (simp add: filter_fst_length names)
  then have count: "length (filter (\<lambda>b. fst b = name) blocks) = 1"
    using one by simp
  have body: "\<forall>i < length ?hs. snd (blocks ! i) = block_text lines (fst (ranges ! i)) (snd (ranges ! i))"
    by (simp add: blocks_def len)
  have rb: "\<forall>i < length ?hs.
               ranges ! i =
                 (term_line spans (?hs ! i) + 1,
                  max (term_line spans (?hs ! i) + 1)
                      (if Suc i < length ?hs then term_line spans (?hs ! Suc i) - 1
                       else int (length lines) - 1))
             \<and> snd (blocks ! i) = block_text lines (fst (ranges ! i)) (snd (ranges ! i))"
    using nth body by blast
  have tl: "term_line spans first = line_no (spans ! ea)" using ea by (simp add: term_line_def)
  have lines_mono: "line_no (spans ! i) \<le> line_no (spans ! j)"
    if "sorted (map line_no spans)" "i \<le> j" "j < length spans" for i j
    using that sorted_iff_nth_mono [of "map line_no spans"] by simp
  have cover: "fst (ranges ! k) \<le> l \<and> l \<le> snd (ranges ! k)"
    if mono: "sorted (map line_no spans)"
      and inpage: "list_all (\<lambda>sp. line_no sp < int (length lines)) spans"
      and none: "\<forall>h \<in> set ?hs. case snd h of None \<Rightarrow> True | Some e \<Rightarrow> \<not> (ea < e \<and> e < eb)"
      and l: "line_no (spans ! ea) < l \<and> l < line_no (spans ! eb)" for l
  proof -
    have rk: "ranges ! k =
           (line_no (spans ! ea) + 1,
            max (line_no (spans ! ea) + 1)
                (if Suc k < length ?hs then term_line spans (?hs ! Suc k) - 1
                 else int (length lines) - 1))"
      using nth k tl by simp
    have "l \<le> (if Suc k < length ?hs then term_line spans (?hs ! Suc k) - 1
                 else int (length lines) - 1)"
    proof (cases "Suc k < length ?hs")
      case True
      let ?h = "?hs ! Suc k"
      have hin: "?h \<in> set ?hs" using True by simp
      have "before first ?h"
        using sorted_hs True k(2) sorted_wrt_iff_nth_less [of before ?hs] by (metis lessI)
      then obtain e where e: "snd ?h = Some e" "ea < e" using before_idx ea by fastforce
      have "e \<noteq> eb" using nodup [OF hin] e(1) by simp
      moreover have "\<not> (ea < e \<and> e < eb)" using none hin e(1) by fastforce
      ultimately have "eb < e" using e(2) by simp
      moreover have "e < length spans"
        using valid hin e(1) by (auto simp: list_all_iff valid_header_def)
      ultimately have "line_no (spans ! eb) \<le> line_no (spans ! e)"
        using lines_mono [OF mono, of eb e] by simp
      moreover have "term_line spans ?h = line_no (spans ! e)" using e(1) by (simp add: term_line_def)
      ultimately show ?thesis using True l by simp
    next
      case False
      have "line_no (spans ! eb) < int (length lines)"
        using inpage ebl by (simp add: list_all_length)
      then show ?thesis using False l by simp
    qed
    then show ?thesis using rk l by simp
  qed
  have stop: "case snd h of None \<Rightarrow> True
              | Some e \<Rightarrow> ea < e \<and> e < eb
                  \<longrightarrow> snd (ranges ! k) \<le> max (line_no (spans ! ea) + 1) (line_no (spans ! e) - 1)"
    if mono: "sorted (map line_no spans)" and hin: "h \<in> set ?hs" for h
  proof (cases "snd h")
    case None
    then show ?thesis by simp
  next
    case (Some e)
    have "snd (ranges ! k) \<le> max (line_no (spans ! ea) + 1) (line_no (spans ! e) - 1)"
      if e: "ea < e \<and> e < eb"
    proof -
      obtain j where j: "j < length ?hs" "?hs ! j = h" using hin by (auto simp: in_set_conv_nth)
      have "k < j"
      proof (rule ccontr)
        assume "\<not> k < j"
        then consider "j = k" | "j < k" by linarith
        then show False
        proof cases
          case 1
          then show False using j(2) k(2) ea Some e by simp
        next
          case 2
          then have "before h first"
            using sorted_hs k j(2) sorted_wrt_iff_nth_less [of before ?hs] by blast
          then show False using before_idx [of h first] ea Some e by auto
        qed
      qed
      then have next_header: "Suc k < length ?hs" using j(1) by simp
      let ?n = "?hs ! Suc k"
      obtain e' where e': "snd ?n = Some e'" "e' \<le> e"
      proof (cases "Suc k = j")
        case True
        then show ?thesis using that [of e] j(2) Some by simp
      next
        case False
        then have "Suc k < j" using \<open>k < j\<close> by simp
        then have "before ?n h"
          using sorted_hs j sorted_wrt_iff_nth_less [of before ?hs] by blast
        then obtain e' where "snd ?n = Some e'" "e' < e" using before_idx [of ?n h] Some by auto
        then show ?thesis using that [of e'] by simp
      qed
      have "e < length spans" using e ebl by simp
      then have "line_no (spans ! e') \<le> line_no (spans ! e)" using lines_mono [OF mono, of e' e] e'(2) by simp
      moreover have "term_line spans ?n = line_no (spans ! e')" using e'(1) by (simp add: term_line_def)
      moreover have "ranges ! k =
           (line_no (spans ! ea) + 1,
            max (line_no (spans ! ea) + 1) (term_line spans ?n - 1))"
        using nth k tl next_header by simp
      ultimately show ?thesis by simp
    qed
    then show ?thesis using Some by simp
  qed
  have nodup_all: "\<forall>h \<in> set ?hs. snd h \<noteq> Some eb" using nodup by blast
  have page: "sorted (map line_no spans)
              \<and> list_all (\<lambda>sp. line_no sp < int (length lines)) spans
              \<longrightarrow> ((\<forall>h \<in> set ?hs.
                      case snd h of None \<Rightarrow> True | Some e \<Rightarrow> \<not> (ea < e \<and> e < eb))
                   \<longrightarrow> (\<forall>l. line_no (spans ! ea) < l \<and> l < line_no (spans ! eb)
                            \<longrightarrow> fst (ranges ! k) \<le> l \<and> l \<le> snd (ranges ! k)))
                \<and> (\<forall>h \<in> set ?hs.
                      case snd h of None \<Rightarrow> True
                      | Some e \<Rightarrow> ea < e \<and> e < eb
                          \<longrightarrow> snd (ranges ! k)
                                \<le> max (line_no (spans ! ea) + 1) (line_no (spans ! e) - 1))"
  proof (intro impI conjI allI ballI)
    fix l
    assume "sorted (map line_no spans) \<and> list_all (\<lambda>sp. line_no sp < int (length lines)) spans"
      and "\<forall>h \<in> set ?hs. case snd h of None \<Rightarrow> True | Some e \<Rightarrow> \<not> (ea < e \<and> e < eb)"
      and "line_no (spans ! ea) < l \<and> l < line_no (spans ! eb)"
    then have c: "fst (ranges ! k) \<le> l \<and> l \<le> snd (ranges ! k)" using cover by blast
    from c show "fst (ranges ! k) \<le> l" by (rule conjunct1)
    from c show "l \<le> snd (ranges ! k)" by (rule conjunct2)
  next
    fix h
    assume "sorted (map line_no spans) \<and> list_all (\<lambda>sp. line_no sp < int (length lines)) spans"
      and "h \<in> set ?hs"
    then show "case snd h of None \<Rightarrow> True
               | Some e \<Rightarrow> ea < e \<and> e < eb
                   \<longrightarrow> snd (ranges ! k)
                         \<le> max (line_no (spans ! ea) + 1) (line_no (spans ! e) - 1)"
      using stop by blast
  qed
  note parts = first ea eb lt ebl one nodup_all extract_headers_distinct [of spans] sl lr names
    count k rb page
  show ?thesis
    by (rule exI [of _ first], rule exI [of _ ea], rule exI [of _ eb], rule exI [of _ k],
        rule exI [of _ blocks], rule exI [of _ ranges]) (intro conjI parts)
qed

section \<open>The theorems at concrete pages\<close>

text \<open>The theorem at the page \<open>two_companies\<close>, whose two headers end on lines 0 and 3.\<close>

theorem slice_company_blocks_ranges_witness:
  "list_all (valid_header two_companies_spans) two_companies_headers
   \<and> list_all (\<lambda>h. 0 \<le> term_line two_companies_spans h) two_companies_headers
   \<and> sorted_wrt (<) (map (term_line two_companies_spans) two_companies_headers)
   \<and> line_ranges two_companies_spans two_companies_lines two_companies_headers
       = Inr [(1, 2), (4, 5)]
   \<and> slice_company_blocks two_companies_headers two_companies_spans two_companies_lines
       = Inr [(''A SDN BHD'', ''a1'' @ [LF] @ ''a2''), (''B SDN BHD'', ''b1'' @ [LF] @ ''b2'')]"
proof -
  have v: "list_all (valid_header two_companies_spans) two_companies_headers"
    by (simp add: valid_header_def two_companies_spans_def two_companies_headers_def)
  have n: "list_all (\<lambda>h. 0 \<le> term_line two_companies_spans h) two_companies_headers"
    by (simp add: term_line_def two_companies_spans_def two_companies_headers_def)
  have s: "sorted_wrt (<) (map (term_line two_companies_spans) two_companies_headers)"
    by (simp add: term_line_def two_companies_spans_def two_companies_headers_def)
  have r: "line_ranges two_companies_spans two_companies_lines two_companies_headers
             = Inr [(1, 2), (4, 5)]"
    by code_simp
  have b: "slice_company_blocks two_companies_headers two_companies_spans two_companies_lines
       = Inr [(''A SDN BHD'', ''a1'' @ [LF] @ ''a2''), (''B SDN BHD'', ''b1'' @ [LF] @ ''b2'')]"
    by code_simp
  from slice_company_blocks_ranges [OF v n, of two_companies_lines]
  show ?thesis by - (intro conjI v n s r b)
qed

text \<open>
  The claim as it was stated fails where two headers end on the same line: on the page
  \<open>two_on_a_line\<close> the flattener gives the spans and lines below, the detector finds both
  headers, and the clamped ranges of the two blocks are both the line 1, whose text is
  in both bodies.
\<close>

theorem slice_company_blocks_overlap_counterexample:
  "get_flat_spans_with_lines two_on_a_line = (two_on_a_line_spans, two_on_a_line_lines)
   \<and> extract_headers_from_bold two_on_a_line_spans
       = [(''A SDN BHD'', Some 0), (''B SDN BHD'', Some 1)]
   \<and> line_ranges two_on_a_line_spans two_on_a_line_lines
         [(''A SDN BHD'', Some 0), (''B SDN BHD'', Some 1)]
       = Inr [(1, 1), (1, 1)]
   \<and> slice_company_blocks [(''A SDN BHD'', Some 0), (''B SDN BHD'', Some 1)]
         two_on_a_line_spans two_on_a_line_lines
       = Inr [(''A SDN BHD'', ''body''), (''B SDN BHD'', ''body'')]"
proof -
  have "get_flat_spans_with_lines two_on_a_line = (two_on_a_line_spans, two_on_a_line_lines)"
    by code_simp
  moreover have "extract_headers_from_bold two_on_a_line_spans
       = [(''A SDN BHD'', Some 0), (''B SDN BHD'', Some 1)]"
    by code_simp
  moreover have "line_ranges two_on_a_line_spans two_on_a_line_lines
         [(''A SDN BHD'', Some 0), (''B SDN BHD'', Some 1)]
       = Inr [(1, 1), (1, 1)]"
    by code_simp
  moreover have "slice_company_blocks [(''A SDN BHD'', Some 0), (''B SDN BHD'', Some 1)]
         two_on_a_line_spans two_on_a_line_lines
       = Inr [(''A SDN BHD'', ''body''), (''B SDN BHD'', ''body'')]"
    by code_simp
  ultimately show ?thesis by (intro conjI)
qed

text \<open>A header on the last line of a page: the block has no text.\<close>

theorem slice_company_blocks_last_line_witness:
  "list_all (valid_header header_last_spans) [(''A SDN BHD'', Some 1)]
   \<and> (0::nat) < length [(''A SDN BHD'', Some (1::nat))]
   \<and> int (length header_last_lines) \<le> term_line header_last_spans ([(''A SDN BHD'', Some 1)] ! 0) + 1
   \<and> extract_headers_from_bold header_last_spans = [(''A SDN BHD'', Some 1)]
   \<and> slice_company_blocks [(''A SDN BHD'', Some 1)] header_last_spans header_last_lines
       = Inr [(''A SDN BHD'', [])]"
proof -
  have v: "list_all (valid_header header_last_spans) [(''A SDN BHD'', Some 1)]"
    by (simp add: valid_header_def header_last_spans_def)
  have i: "(0::nat) < length [(''A SDN BHD'', Some (1::nat))]"
    by simp
  have p: "int (length header_last_lines)
             \<le> term_line header_last_spans ([(''A SDN BHD'', Some 1)] ! 0) + 1"
    by (simp add: term_line_def header_last_spans_def header_last_lines_def)
  have h: "extract_headers_from_bold header_last_spans = [(''A SDN BHD'', Some 1)]"
    by code_simp
  obtain blocks where
    b: "slice_company_blocks [(''A SDN BHD'', Some 1)] header_last_spans header_last_lines = Inr blocks"
    and l: "length blocks = length [(''A SDN BHD'', Some (1::nat))]"
    and n: "blocks ! 0 = (fst ([(''A SDN BHD'', Some (1::nat))] ! 0), [])"
    using slice_company_blocks_last_line [OF v i p] by blast
  have "blocks = [(''A SDN BHD'', [])]"
    using l n by (cases blocks) simp_all
  then show ?thesis using v i p h b by simp
qed

section \<open>The contact extractor on the block text of the specification\<close>

text \<open>
  Claim C5.  On the block text \<^verbatim>\<open>"Tel No.: 03-12345678, 019-8765432\nsome.person @ example . com"\<close>
  (with a line break between the two lines) the contact extractor returns the phones
  \<^verbatim>\<open>["03-12345678", "019-8765432"]\<close>, in that order, and the emails
  \<^verbatim>\<open>["some.person@example.com"]\<close>.
\<close>

theorem extract_contacts_from_block_example:
  "extract_contacts_from_block
     (''Tel No.: 03-12345678, 019-8765432'' @ [LF] @ ''some.person @ example . com'')
   = Inr ([''03-12345678'', ''019-8765432''], [''some.person@example.com''])"
  by code_simp

section \<open>Headers of the same name\<close>

lemma twice_candidates:
  "candidates twice_spans = [(''A SDN BHD'', Some 0), (''A SDN BHD'', Some 2)]"
  by code_simp

lemma twice_headers:
  "extract_headers_from_bold twice_spans = [(''A SDN BHD'', Some 0)]"
  by (simp add: extract_headers_from_bold_def twice_candidates)

lemma between_candidates:
  "candidates between_spans
     = [(''A SDN BHD'', Some 0), (''B SDN BHD'', Some 2), (''A SDN BHD'', Some 4)]"
  by code_simp

lemma between_headers:
  "extract_headers_from_bold between_spans = [(''A SDN BHD'', Some 0), (''B SDN BHD'', Some 2)]"
  by (simp add: extract_headers_from_bold_def between_candidates)


lemma shared_line_candidates:
  "candidates shared_line_spans
     = [(''A SDN BHD'', Some 0), (''A SDN BHD'', Some 2), (''C SDN BHD'', Some 3)]"
  by code_simp

lemma shared_line_headers:
  "extract_headers_from_bold shared_line_spans = [(''A SDN BHD'', Some 0), (''C SDN BHD'', Some 3)]"
  by (simp add: extract_headers_from_bold_def shared_line_candidates)

text \<open>
  The theorem at three pages.  On \<open>twice_spans\<close> the one block of the company runs from
  line 1 through the line of the second occurrence to the end of the page.  On
  \<open>shared_line_spans\<close> another company is named after the second occurrence on the same
  line: the block of the first occurrence is the line 1, the one line strictly between
  the two occurrences, and the line of the second occurrence is in no block.  On
  \<open>between_spans\<close> another company is named between the two occurrences, on line 2: the
  block of the first occurrence is the line 1.
\<close>

theorem duplicate_header_first_wins_witness:
  "(0::nat) < 1 \<and> 1 < length (candidates twice_spans)
   \<and> fst (candidates twice_spans ! 0) = ''A SDN BHD''
   \<and> fst (candidates twice_spans ! 1) = ''A SDN BHD''
   \<and> sorted (map line_no twice_spans)
   \<and> list_all (\<lambda>sp. line_no sp < int (length twice_lines)) twice_spans
   \<and> extract_headers_from_bold twice_spans = [(''A SDN BHD'', Some 0)]
   \<and> line_ranges twice_spans twice_lines (extract_headers_from_bold twice_spans) = Inr [(1, 4)]
   \<and> slice_company_blocks (extract_headers_from_bold twice_spans) twice_spans twice_lines
       = Inr [(''A SDN BHD'', ''x'' @ [LF] @ ''A SDN BHD'' @ [LF] @ ''y'' @ [LF] @ ''z'')]
   \<and> 1 < length (candidates shared_line_spans)
   \<and> fst (candidates shared_line_spans ! 0) = ''A SDN BHD''
   \<and> fst (candidates shared_line_spans ! 1) = ''A SDN BHD''
   \<and> sorted (map line_no shared_line_spans)
   \<and> list_all (\<lambda>sp. line_no sp < int (length shared_line_lines)) shared_line_spans
   \<and> extract_headers_from_bold shared_line_spans
       = [(''A SDN BHD'', Some 0), (''C SDN BHD'', Some 3)]
   \<and> line_ranges shared_line_spans shared_line_lines (extract_headers_from_bold shared_line_spans)
       = Inr [(1, 1), (3, 3)]
   \<and> slice_company_blocks (extract_headers_from_bold shared_line_spans)
         shared_line_spans shared_line_lines
       = Inr [(''A SDN BHD'', ''x''), (''C SDN BHD'', ''y'')]
   \<and> (0::nat) < 2 \<and> 2 < length (candidates between_spans)
   \<and> fst (candidates between_spans ! 0) = ''A SDN BHD''
   \<and> fst (candidates between_spans ! 2) = ''A SDN BHD''
   \<and> sorted (map line_no between_spans)
   \<and> list_all (\<lambda>sp. line_no sp < int (length between_lines)) between_spans
   \<and> extract_headers_from_bold between_spans
       = [(''A SDN BHD'', Some 0), (''B SDN BHD'', Some 2)]
   \<and> line_ranges between_spans between_lines (extract_headers_from_bold between_spans)
       = Inr [(1, 1), (3, 5)]"
proof -
  have a: "(0::nat) < 1" by simp
  have b: "1 < length (candidates twice_spans)" by (simp add: twice_candidates)
  have na: "fst (candidates twice_spans ! 0) = ''A SDN BHD''" by (simp add: twice_candidates)
  have nb: "fst (candidates twice_spans ! 1) = ''A SDN BHD''" by (simp add: twice_candidates)
  have m: "sorted (map line_no twice_spans)" by (simp add: twice_spans_def)
  have p: "list_all (\<lambda>sp. line_no sp < int (length twice_lines)) twice_spans"
    by (simp add: twice_spans_def twice_lines_def)
  have r: "line_ranges twice_spans twice_lines (extract_headers_from_bold twice_spans)
             = Inr [(1, 4)]"
    by code_simp
  have s: "slice_company_blocks (extract_headers_from_bold twice_spans) twice_spans twice_lines
       = Inr [(''A SDN BHD'', ''x'' @ [LF] @ ''A SDN BHD'' @ [LF] @ ''y'' @ [LF] @ ''z'')]"
    by code_simp
  have b': "1 < length (candidates shared_line_spans)" by (simp add: shared_line_candidates)
  have na': "fst (candidates shared_line_spans ! 0) = ''A SDN BHD''"
    by (simp add: shared_line_candidates)
  have nb': "fst (candidates shared_line_spans ! 1) = ''A SDN BHD''"
    by (simp add: shared_line_candidates)
  have m': "sorted (map line_no shared_line_spans)" by (simp add: shared_line_spans_def)
  have p': "list_all (\<lambda>sp. line_no sp < int (length shared_line_lines)) shared_line_spans"
    by (simp add: shared_line_spans_def shared_line_lines_def)
  have r': "line_ranges shared_line_spans shared_line_lines
              (extract_headers_from_bold shared_line_spans) = Inr [(1, 1), (3, 3)]"
    by code_simp
  have s': "slice_company_blocks (extract_headers_from_bold shared_line_spans)
         shared_line_spans shared_line_lines
       = Inr [(''A SDN BHD'', ''x''), (''C SDN BHD'', ''y'')]"
    by code_simp
  have a'': "(0::nat) < 2" by simp
  have b'': "2 < length (candidates between_spans)" by (simp add: between_candidates)
  have na'': "fst (candidates between_spans ! 0) = ''A SDN BHD''"
    by (simp add: between_candidates)
  have nb'': "fst (candidates between_spans ! 2) = ''A SDN BHD''"
    by (simp add: between_candidates)
  have m'': "sorted (map line_no between_spans)" by (simp add: between_spans_def)
  have p'': "list_all (\<lambda>sp. line_no sp < int (length between_lines)) between_spans"
    by (simp add: between_spans_def between_lines_def)
  have r'': "line_ranges between_spans between_lines (extract_headers_from_bold between_spans)
               = Inr [(1, 1), (3, 5)]"
    by code_simp
  have all: ?thesis
    by (intro conjI a b na nb m p twice_headers r s b' na' nb' m' p' shared_line_headers r' s'
          a'' b'' na'' nb'' m'' p'' between_headers r'')
  from duplicate_header_first_wins [OF a b na nb, of twice_lines]
    duplicate_header_first_wins [OF a b' na' nb', of shared_line_lines]
    duplicate_header_first_wins [OF a'' b'' na'' nb'', of between_lines]
  show ?thesis by - (rule all)
qed


text \<open>
  The claim as it was stated fails where another company is named between the two
  occurrences: on the page \<open>between_spans\<close> the block of the first occurrence is the line 1
  alone; the second occurrence, on line 4, and the line after it are in the block of the
  company named in between.
\<close>

theorem duplicate_header_block_counterexample:
  "candidates between_spans
     = [(''A SDN BHD'', Some 0), (''B SDN BHD'', Some 2), (''A SDN BHD'', Some 4)]
   \<and> extract_headers_from_bold between_spans
     = [(''A SDN BHD'', Some 0), (''B SDN BHD'', Some 2)]
   \<and> line_ranges between_spans between_lines (extract_headers_from_bold between_spans)
     = Inr [(1, 1), (3, 5)]
   \<and> slice_company_blocks (extract_headers_from_bold between_spans) between_spans between_lines
     = Inr [(''A SDN BHD'', ''a1''), (''B SDN BHD'', ''b1'' @ [LF] @ ''A SDN BHD'' @ [LF] @ ''a2'')]"
proof -
  have "line_ranges between_spans between_lines (extract_headers_from_bold between_spans)
     = Inr [(1, 1), (3, 5)]"
    by code_simp
  moreover have "slice_company_blocks (extract_headers_from_bold between_spans)
       between_spans between_lines
     = Inr [(''A SDN BHD'', ''a1''), (''B SDN BHD'', ''b1'' @ [LF] @ ''A SDN BHD'' @ [LF] @ ''a2'')]"
    by code_simp
  ultimately show ?thesis
    by (intro conjI between_candidates between_headers)
qed

section \<open>The detector's headers in the slicer\<close>


section \<open>The flattener on a page with a blank line\<close>

text \<open>
  The theorem at the page \<open>blank_line_page\<close>: three lines, the second one with the empty
  text, and the span of the third line carries the line number 2.
\<close>

theorem get_flat_spans_with_lines_ordered_witness:
  "get_flat_spans_with_lines blank_line_page
     = ([\<lparr>span_text = ''A SDN BHD'', is_bold = True, line_no = 0\<rparr>,
         \<lparr>span_text = ''x'', is_bold = True, line_no = 2\<rparr>],
        [''A SDN BHD'', [], ''x''])
   \<and> length (visual_lines (get_or (rp_blocks blank_line_page) [])) = 3
   \<and> fragment_texts (visual_lines (get_or (rp_blocks blank_line_page) []) ! 1) = []"
proof -
  have e: "get_flat_spans_with_lines blank_line_page
     = ([\<lparr>span_text = ''A SDN BHD'', is_bold = True, line_no = 0\<rparr>,
         \<lparr>span_text = ''x'', is_bold = True, line_no = 2\<rparr>],
        [''A SDN BHD'', [], ''x''])"
    by code_simp
  have l: "length (visual_lines (get_or (rp_blocks blank_line_page) [])) = 3"
    by (simp add: blank_line_page_def visual_lines_def)
  have f: "fragment_texts (visual_lines (get_or (rp_blocks blank_line_page) []) ! 1) = []"
    by code_simp
  from get_flat_spans_with_lines_ordered [of blank_line_page]
  show ?thesis by - (intro conjI e l f)
qed

section \<open>A phone-shaped text without a label\<close>

text \<open>
  The theorem at the block text \<^verbatim>\<open>"Reg 03-12345678"\<close>: the phone pattern matches in it,
  neither the telephone label nor an email occurs, and both lists are empty.
\<close>

theorem extract_contacts_no_match_witness:
  "\<not> occurs TEL_LABEL_RE ''Reg 03-12345678''
   \<and> \<not> occurs EMAIL_BREAK_RE ''Reg 03-12345678''
   \<and> findall PHONE_RE ''Reg 03-12345678'' = [''03-12345678'']
   \<and> extract_contacts_from_block ''Reg 03-12345678'' = Inr ([], [])"
proof -
  have a: "\<not> occurs TEL_LABEL_RE ''Reg 03-12345678''" by code_simp
  have b: "\<not> occurs EMAIL_BREAK_RE ''Reg 03-12345678''" by code_simp
  have c: "findall PHONE_RE ''Reg 03-12345678'' = [''03-12345678'']" by code_simp
  from extract_contacts_no_match [of "''Reg 03-12345678''"] a b
  have "extract_contacts_from_block ''Reg 03-12345678'' = Inr ([], [])" by auto
  then show ?thesis using a b c by (intro conjI)
qed

section \<open>Runs of bold spans at concrete spans\<close>






text \<open>
  The theorem at the bold spans \<^verbatim>\<open>Our\<close>, \<^verbatim>\<open>Team\<close>, \<^verbatim>\<open>Management\<close>: the open buffer is
  discarded at the third span, and the company named after it has the only header.
\<close>

theorem rejected_span_no_header_witness:
  "is_bold management_span \<and> rejected (span_text management_span)
   \<and> buf (scanned plain_run) = [''Our'', ''Team'']
   \<and> \<not> contains (join '' '' (buf (scanned plain_run))) CO_NO_LITERAL
   \<and> buf (scanned (plain_run @ [management_span])) = []
   \<and> results (scanned (plain_run @ [management_span])) = []
   \<and> extract_headers_from_bold (plain_run @ management_span # acme_run)
       = [(''ACME SDN BHD'', Some 4)]"
proof -
  have a: "is_bold management_span" by (simp add: management_span_def)
  have b: "rejected (span_text management_span)" by code_simp
  have c: "buf (scanned plain_run) = [''Our'', ''Team'']" by code_simp
  have d: "\<not> contains (join '' '' (buf (scanned plain_run))) CO_NO_LITERAL" by code_simp
  have e: "results (scanned plain_run) = []" by code_simp
  have f: "extract_headers_from_bold (plain_run @ management_span # acme_run)
       = [(''ACME SDN BHD'', Some 4)]" by code_simp
  note all = rejected_span_no_header [OF a b, of plain_run acme_run]
  have g: "buf (scanned (plain_run @ [management_span])) = []"
    using all by (rule conjunct1)
  have "results (scanned (plain_run @ [management_span])) = results (scanned plain_run)"
    using all [THEN conjunct2, THEN conjunct2, THEN conjunct2, THEN conjunct1] d by (rule mp)
  then have h: "results (scanned (plain_run @ [management_span])) = []"
    by (simp only: e)
  show ?thesis by (intro conjI a b c d g h f)
qed

text \<open>
  The claim as it was stated fails where the annotation is split over two spans: no span
  of the buffer contains \<^verbatim>\<open>(Co. No.\<close>, so the buffer is still open at the rejected span, but
  its joined text does, and the flush at the rejected span records it as a header.
\<close>

theorem rejected_span_emits_counterexample:
  "list_all is_bold (split_annotation_run @ [management_span])
   \<and> rejected (span_text management_span)
   \<and> buf (scanned split_annotation_run) = [''ACME'', ''(Co.'', ''No.: 123)'']
   \<and> results (scanned split_annotation_run) = []
   \<and> results (scanned (split_annotation_run @ [management_span])) = [(''ACME'', Some 2)]
   \<and> extract_headers_from_bold (split_annotation_run @ [management_span]) = [(''ACME'', Some 2)]"
proof -
  have "list_all is_bold (split_annotation_run @ [management_span])"
    by (simp add: split_annotation_run_def management_span_def)
  moreover have "rejected (span_text management_span)" by code_simp
  moreover have "buf (scanned split_annotation_run) = [''ACME'', ''(Co.'', ''No.: 123)'']"
    by code_simp
  moreover have "results (scanned split_annotation_run) = []" by code_simp
  moreover have "results (scanned (split_annotation_run @ [management_span])) = [(''ACME'', Some 2)]"
    by code_simp
  moreover have "extract_headers_from_bold (split_annotation_run @ [management_span])
                   = [(''ACME'', Some 2)]"
    by code_simp
  ultimately show ?thesis by (intro conjI)
qed


end
